theory Spec2Isabelle
  imports Main "HOL-Library.Multiset"
begin

section \<open>Values, errors and the stores of the reactivity core\<close>

text \<open>
  JavaScript values. Numbers are integers plus \<open>NaN\<close>, which is all the code under
  study distinguishes (it compares values with \<open>===\<close> and tests \<open>v !== v\<close>). An object
  value is a reference into the heap.
\<close>

datatype jsval =
    Undefined | Null | Boolean bool | Number int | NaN | String string | Symbol nat | Object nat

text \<open>\<open>a === b\<close>: equal values, except that \<open>NaN\<close> is unequal to itself.\<close>

definition strict_eq :: "jsval \<Rightarrow> jsval \<Rightarrow> bool" where
  "strict_eq a b = (a = b \<and> a \<noteq> NaN)"



fun isObject :: "jsval \<Rightarrow> bool" where
  "isObject (Object _) = True"
| "isObject _ = False"

text \<open>
  A thrown value: a \<open>TypeError\<close> or \<open>RangeError\<close> of the language, or a value thrown
  by user code.
\<close>

datatype exn = TypeError | RangeError | UserError nat

text \<open>
  The variables closed over by one call of \<open>defineReactive\<close>: \<open>val\<close>, \<open>childOb\<close>, the
  pre-defined \<open>getter\<close> and \<open>setter\<close> of the property, \<open>shallow\<close> and whether a
  \<open>customSetter\<close> was passed. The closure is identified by the id of the \<open>Dep\<close> it
  creates. A pre-defined accessor is user code; it is modelled by the cell it reads
  (getter) or writes (setter). An observer is identified by the id of its \<open>dep\<close>.
\<close>

record closure =
  val :: jsval
  childOb :: "nat option"
  prop_getter :: "nat option"
  prop_setter :: "nat option"
  shallow :: bool
  customSetter :: bool

text \<open>
  A Watcher (watcher.js). \<open>getter\<close> is user code that reads reactive properties: it is
  modelled by what it does to the core, namely the ids of the deps whose \<open>depend()\<close> its
  reads trigger, in order, and its result (a value, or a thrown exception), as a function
  of the closure-held property values. \<open>cb\<close> is user code as well: the model records
  each call and lets the callback throw. Watchers are identified by their \<open>id\<close>; the
  fields \<open>expression\<close> and \<open>before\<close> do not influence the functions modelled here.
\<close>

record watcher =
  vm :: nat
  cb :: "jsval \<Rightarrow> jsval \<Rightarrow> exn option"
  deep :: bool
  user :: bool
  lazy :: bool
  sync :: bool
  dirty :: bool
  active :: bool
  deps :: "nat list"
  newDeps :: "nat list"
  depIds :: "nat set"
  newDepIds :: "nat set"
  getter :: "(nat \<Rightarrow> closure) \<Rightarrow> nat list \<times> (exn + jsval)"
  wvalue :: jsval

text \<open>
  Heap objects, with the features observer/index.js looks at. \<open>cls\<close> tells what
  \<open>Array.isArray\<close>, \<open>isPlainObject\<close> and \<open>instanceof VNode\<close> answer. A property key is
  \<open>Index n\<close> when \<open>isValidArrayIndex\<close> accepts it (the integer is \<open>n\<close>) and a name
  otherwise. An own property is a data property (value, writable, enumerable,
  configurable), an accessor property defined by user code (the cell its getter reads, the
  cell its setter writes, enumerable, configurable) or the accessor property installed by
  \<open>defineReactive\<close> (enumerable and configurable), which holds the id of its closure. The
  elements of an array are \<open>elems\<close>; its other own properties are in \<open>props\<close>.
  \<open>inherited\<close> lists the names found on the prototype chain, \<open>ob\<close> is the own property
  \<open>__ob__\<close>, \<open>isVue\<close> the property \<open>_isVue\<close>, and \<open>augmented\<close> tells that the
  methods of \<open>arrayMethods\<close> shadow those of \<open>Array.prototype\<close> (protoAugment or
  copyAugment).
\<close>

datatype obj_class = PlainObject | ArrayObject | VNodeObject | OtherObject

datatype key = Index nat | Name string

datatype property =
    DataProperty jsval bool bool bool
  | AccessorProperty "nat option" "nat option" bool bool
  | ReactiveProperty nat

record jsobj =
  cls :: obj_class
  props :: "(key \<times> property) list"
  elems :: "jsval list"
  inherited :: "string list"
  extensible :: bool
  isVue :: bool
  ob :: "nat option"
  augmented :: bool

record observer =
  ob_value :: nat
  vmCount :: nat

text \<open>
  The whole state: the module variables of dep.js (\<open>uid\<close>, \<open>Dep.target\<close>,
  \<open>targetStack\<close>) and the \<open>subs\<close> array of every Dep (by dep id), the module variable
  \<open>uid\<close> of watcher.js and every Watcher (by watcher id), the \<open>_watchers\<close> list and the
  \<open>_isBeingDestroyed\<close> flag of every component instance, the scheduler, the switch
  \<open>shouldObserve\<close>, the heap, the observers and the closures of reactive properties,
  the build flag \<open>process.env.NODE_ENV === 'production'\<close>, \<open>config.async\<close>, and three
  logs that record the calls of user callbacks, of \<open>handleError\<close> and of \<open>warn\<close>.
\<close>

record state =
  production :: bool
  async :: bool
  dep_uid :: nat
  subs :: "nat \<Rightarrow> nat list"
  target :: "nat option"
  targetStack :: "nat option list"
  watcher_uid :: nat
  watchers :: "nat \<Rightarrow> watcher"
  vm_watchers :: "nat \<Rightarrow> nat list"
  vm_isBeingDestroyed :: "nat \<Rightarrow> bool"
  queue :: "nat list"
  has :: "nat set"
  waiting :: bool
  flushing :: bool
  flush_index :: nat
  shouldObserve :: bool
  serverRendering :: bool
  heap :: "jsobj list"
  observers :: "nat \<Rightarrow> observer"
  closures :: "nat \<Rightarrow> closure"
  cells :: "nat \<Rightarrow> jsval"
  traverse_touches :: "jsval \<Rightarrow> nat list"
  cbLog :: "(nat \<times> jsval \<times> jsval) list"
  errLog :: "(exn \<times> nat) list"
  warnLog :: "string list"

section \<open>shared/util.js: remove\<close>

text \<open>\<open>arr.indexOf(item)\<close>, with \<open>None\<close> for \<open>-1\<close>, and \<open>arr.splice(index, 1)\<close>.\<close>

fun indexOf :: "'a list \<Rightarrow> 'a \<Rightarrow> nat option" where
  "indexOf [] x = None"
| "indexOf (y # ys) x = (if y = x then Some 0 else map_option Suc (indexOf ys x))"

definition splice1 :: "'a list \<Rightarrow> nat \<Rightarrow> 'a list" where
  "splice1 arr i = take i arr @ drop (Suc i) arr"

definition remove_arr :: "'a list \<Rightarrow> 'a \<Rightarrow> 'a list" where
  "remove_arr arr item =
     (if arr \<noteq> [] then
        (case indexOf arr item of Some index \<Rightarrow> splice1 arr index | None \<Rightarrow> arr)
      else arr)"

section \<open>observer/dep.js and observer/watcher.js\<close>

text \<open>\<open>new Dep()\<close>: \<open>this.id = uid++; this.subs = []\<close>.\<close>

definition new_Dep :: "state \<Rightarrow> nat \<times> state" where
  "new_Dep s = (dep_uid s, s\<lparr>dep_uid := dep_uid s + 1, subs := (subs s)(dep_uid s := [])\<rparr>)"

definition addSub :: "nat \<Rightarrow> nat \<Rightarrow> state \<Rightarrow> state" where
  "addSub d w s = s\<lparr>subs := (subs s)(d := subs s d @ [w])\<rparr>"

definition removeSub :: "nat \<Rightarrow> nat \<Rightarrow> state \<Rightarrow> state" where
  "removeSub d w s = s\<lparr>subs := (subs s)(d := remove_arr (subs s d) w)\<rparr>"

definition pushTarget :: "nat option \<Rightarrow> state \<Rightarrow> state" where
  "pushTarget t s = s\<lparr>targetStack := targetStack s @ [t], target := t\<rparr>"

text \<open>
  \<open>targetStack.pop(); Dep.target = targetStack[targetStack.length - 1]\<close>. Popping the
  empty array leaves it empty, and reading index \<open>-1\<close> gives \<open>undefined\<close>; \<open>null\<close>
  and \<open>undefined\<close> are both the target \<open>None\<close>.
\<close>

definition popTarget :: "state \<Rightarrow> state" where
  "popTarget s =
     (let st = butlast (targetStack s)
      in s\<lparr>targetStack := st, target := (if st = [] then None else last st)\<rparr>)"

text \<open>Watcher.addDep.\<close>

definition addDep :: "nat \<Rightarrow> nat \<Rightarrow> state \<Rightarrow> state" where
  "addDep w d s =
     (let this = watchers s w in
      if d \<notin> newDepIds this then
        (let s1 = s\<lparr>watchers := (watchers s)
                     (w := this\<lparr>newDepIds := insert d (newDepIds this),
                                newDeps := newDeps this @ [d]\<rparr>)\<rparr>
         in if d \<notin> depIds this then addSub d w s1 else s1)
      else s)"

text \<open>Dep.depend.\<close>

definition depend :: "nat \<Rightarrow> state \<Rightarrow> state" where
  "depend d s = (case target s of Some w \<Rightarrow> addDep w d s | None \<Rightarrow> s)"

text \<open>
  Watcher.cleanupDeps. The loop \<open>while (i--)\<close> visits \<open>deps\<close> from the last element to
  the first.
\<close>

definition cleanupDeps :: "nat \<Rightarrow> state \<Rightarrow> state" where
  "cleanupDeps w s =
     (let this = watchers s w;
          s1 = fold (\<lambda>dep st. if dep \<notin> newDepIds this then removeSub dep w st else st)
                 (rev (deps this)) s;
          this1 = watchers s1 w
      in s1\<lparr>watchers := (watchers s1)
              (w := this1\<lparr>depIds := newDepIds this1, newDepIds := {},
                          deps := newDeps this1, newDeps := []\<rparr>)\<rparr>)"

text \<open>
  Modelled from the spec: \<open>handleError\<close> (util/error.js is not among the sources).
  The error is reported to the handler and swallowed; the model records the error and
  the watcher it came from.
\<close>

definition handleError :: "exn \<Rightarrow> nat \<Rightarrow> state \<Rightarrow> state" where
  "handleError e w s = s\<lparr>errLog := errLog s @ [(e, w)]\<rparr>"

text \<open>
  Watcher.get. The reads of the getter call \<open>depend()\<close> on their deps while the watcher
  is the current target. \<open>traverse\<close> (observer/traverse.js is not among the sources) is
  modelled from the spec: it touches every property reachable from the value, that is,
  it calls \<open>depend()\<close> on the deps \<open>traverse_touches\<close> gives for the value. When the
  getter throws, \<open>value\<close> is still \<open>undefined\<close> in the \<open>finally\<close> block.
  \<open>get_try\<close> is the \<open>try\<close> statement with its \<open>catch\<close> clause (the exception that
  is rethrown, the value, the state), \<open>get_finally\<close> the \<open>finally\<close> block.
\<close>

definition get_try :: "nat \<Rightarrow> state \<Rightarrow> exn option \<times> jsval \<times> state" where
  "get_try w s =
     (let this = watchers s w;
          reads = fst (getter this (closures s));
          res = snd (getter this (closures s));
          s2 = fold depend reads s
      in case res of
           Inr v \<Rightarrow> (None, v, s2)
         | Inl e \<Rightarrow>
             if user this then (None, Undefined, handleError e w s2)
             else (Some e, Undefined, s2))"

definition get_finally :: "nat \<Rightarrow> jsval \<Rightarrow> state \<Rightarrow> state" where
  "get_finally w v s =
     (let s4 = (if deep (watchers s w) then fold depend (traverse_touches s v) s else s);
          s5 = popTarget s4
      in cleanupDeps w s5)"

definition get :: "nat \<Rightarrow> state \<Rightarrow> (exn + jsval) \<times> state" where
  "get w s =
     (let s1 = pushTarget (Some w) s
      in case get_try w s1 of
           (Some e, v, s3) \<Rightarrow> (Inl e, get_finally w v s3)
         | (None, v, s3) \<Rightarrow> (Inr v, get_finally w v s3))"

text \<open>
  Modelled from the spec: \<open>invokeWithErrorHandling\<close> (util/error.js is not among the
  sources) calls the callback and routes an exception to \<open>handleError\<close>.
\<close>

definition invokeWithErrorHandling :: "nat \<Rightarrow> jsval \<Rightarrow> jsval \<Rightarrow> state \<Rightarrow> state" where
  "invokeWithErrorHandling w v oldValue s =
     (let s1 = s\<lparr>cbLog := cbLog s @ [(w, v, oldValue)]\<rparr>
      in case cb (watchers s1 w) v oldValue of
           Some e \<Rightarrow> handleError e w s1
         | None \<Rightarrow> s1)"

text \<open>Watcher.run. The first component of the result is the exception that propagates.\<close>

definition run :: "nat \<Rightarrow> state \<Rightarrow> exn option \<times> state" where
  "run w s =
     (if active (watchers s w) then
        (case get w s of
           (Inl e, s1) \<Rightarrow> (Some e, s1)
         | (Inr v, s1) \<Rightarrow>
             (let this = watchers s1 w in
              if \<not> strict_eq v (wvalue this) \<or> isObject v \<or> deep this then
                (let oldValue = wvalue this;
                     s2 = s1\<lparr>watchers := (watchers s1)(w := this\<lparr>wvalue := v\<rparr>)\<rparr>
                 in if user this then (None, invokeWithErrorHandling w v oldValue s2)
                    else (cb this v oldValue, s2\<lparr>cbLog := cbLog s2 @ [(w, v, oldValue)]\<rparr>))
              else (None, s1)))
      else (None, s))"

text \<open>
  Modelled from the spec: \<open>queueWatcher\<close> and \<open>flushSchedulerQueue\<close>
  (observer/scheduler.js is not among the sources).  A watcher whose id is in the
  membership set is dropped while the scheduler is not flushing; while it is flushing the
  watcher is inserted behind the entries that are already processed, keeping the ids of
  the rest ascending; otherwise it is appended. The micro-task is the flag \<open>waiting\<close>.
\<close>

fun insert_sorted_from :: "nat \<Rightarrow> nat \<Rightarrow> nat list \<Rightarrow> nat list" where
  "insert_sorted_from i w q =
     (let done_part = take (Suc i) q; rest = drop (Suc i) q
      in done_part @ takeWhile (\<lambda>x. x \<le> w) rest @ [w] @ dropWhile (\<lambda>x. x \<le> w) rest)"

definition queueWatcher :: "nat \<Rightarrow> state \<Rightarrow> state" where
  "queueWatcher w s =
     (if w \<in> has s \<and> \<not> flushing s then s
      else
        (let s1 = (if flushing s
                   then s\<lparr>queue := insert_sorted_from (flush_index s) w (queue s)\<rparr>
                   else s\<lparr>queue := queue s @ [w]\<rparr>)
         in s1\<lparr>has := insert w (has s1), waiting := True\<rparr>))"

text \<open>Watcher.update.\<close>

definition update :: "nat \<Rightarrow> state \<Rightarrow> exn option \<times> state" where
  "update w s =
     (let this = watchers s w in
      if lazy this then (None, s\<lparr>watchers := (watchers s)(w := this\<lparr>dirty := True\<rparr>)\<rparr>)
      else if sync this then run w s
      else (None, queueWatcher w s))"

text \<open>
  Dep.notify. The loop runs over the snapshot \<open>subs.slice()\<close>; an exception thrown by
  an \<open>update()\<close> ends it. \<open>subs.sort((a, b) => a.id - b.id)\<close> sorts the watchers by
  id, and a watcher is its id here.
\<close>

fun notify_loop :: "nat list \<Rightarrow> state \<Rightarrow> exn option \<times> state" where
  "notify_loop [] s = (None, s)"
| "notify_loop (w # ws) s =
     (case update w s of
        (Some e, s1) \<Rightarrow> (Some e, s1)
      | (None, s1) \<Rightarrow> notify_loop ws s1)"

definition notify_order :: "nat \<Rightarrow> state \<Rightarrow> nat list" where
  "notify_order d s =
     (let snapshot = subs s d
      in if \<not> production s \<and> \<not> async s then sort snapshot else snapshot)"

definition notify :: "nat \<Rightarrow> state \<Rightarrow> exn option \<times> state" where
  "notify d s = notify_loop (notify_order d s) s"

text \<open>Watcher.evaluate, Watcher.depend and Watcher.teardown.\<close>

definition evaluate :: "nat \<Rightarrow> state \<Rightarrow> exn option \<times> state" where
  "evaluate w s =
     (case get w s of
        (Inl e, s1) \<Rightarrow> (Some e, s1)
      | (Inr v, s1) \<Rightarrow>
          (None, s1\<lparr>watchers := (watchers s1)(w := (watchers s1 w)\<lparr>wvalue := v, dirty := False\<rparr>)\<rparr>))"

definition watcher_depend :: "nat \<Rightarrow> state \<Rightarrow> state" where
  "watcher_depend w s = fold depend (rev (deps (watchers s w))) s"

definition teardown :: "nat \<Rightarrow> state \<Rightarrow> state" where
  "teardown w s =
     (let this = watchers s w in
      if active this then
        (let s1 = (if \<not> vm_isBeingDestroyed s (vm this)
                   then s\<lparr>vm_watchers := (vm_watchers s)
                            (vm this := remove_arr (vm_watchers s (vm this)) w)\<rparr>
                   else s);
             s2 = fold (\<lambda>dep st. removeSub dep w st) (rev (deps this)) s1
         in s2\<lparr>watchers := (watchers s2)(w := (watchers s2 w)\<lparr>active := False\<rparr>)\<rparr>)
      else s)"

text \<open>
  \<open>new Watcher(vm, expOrFn, cb, options)\<close> for a function \<open>expOrFn\<close>. The id is
  \<open>++uid\<close>. \<open>init_fields\<close> is the initialisation of the fields; a watcher that is
  not lazy is evaluated at once, and an exception of that evaluation leaves the
  constructor.
\<close>

record watcher_options =
  opt_deep :: bool
  opt_user :: bool
  opt_lazy :: bool
  opt_sync :: bool

definition init_fields ::
  "nat \<Rightarrow> ((nat \<Rightarrow> closure) \<Rightarrow> nat list \<times> (exn + jsval)) \<Rightarrow> (jsval \<Rightarrow> jsval \<Rightarrow> exn option) \<Rightarrow>
   watcher_options option \<Rightarrow> watcher" where
  "init_fields v expOrFn callback options =
     (let opts = (case options of
                    Some x \<Rightarrow> x
                  | None \<Rightarrow> \<lparr>opt_deep = False, opt_user = False, opt_lazy = False,
                              opt_sync = False\<rparr>)
      in \<lparr>vm = v, cb = callback, deep = opt_deep opts, user = opt_user opts,
          lazy = opt_lazy opts, sync = opt_sync opts, dirty = opt_lazy opts, active = True,
          deps = [], newDeps = [], depIds = {}, newDepIds = {},
          getter = expOrFn, wvalue = Undefined\<rparr>)"

definition new_Watcher ::
  "nat \<Rightarrow> ((nat \<Rightarrow> closure) \<Rightarrow> nat list \<times> (exn + jsval)) \<Rightarrow> (jsval \<Rightarrow> jsval \<Rightarrow> exn option) \<Rightarrow>
   watcher_options option \<Rightarrow> state \<Rightarrow> exn option \<times> nat \<times> state" where
  "new_Watcher v expOrFn callback options s =
     (let w = watcher_uid s + 1;
          this = init_fields v expOrFn callback options;
          s1 = s\<lparr>vm_watchers := (vm_watchers s)(v := vm_watchers s v @ [w]),
                 watcher_uid := w,
                 watchers := (watchers s)(w := this)\<rparr>
      in if lazy this then (None, w, s1)
         else (case get w s1 of
                 (Inl e, s2) \<Rightarrow> (Some e, w, s2)
               | (Inr x, s2) \<Rightarrow>
                   (None, w, s2\<lparr>watchers := (watchers s2)(w := (watchers s2 w)\<lparr>wvalue := x\<rparr>)\<rparr>)))"

text \<open>
  Modelled from the spec: \<open>flushSchedulerQueue\<close> sorts the queue by id, runs every
  entry, then clears the membership set and resets the flags. In this model a run
  appends nothing to the queue (getters only read, callbacks are recorded), so the loop
  over the index is a loop over the sorted queue.
\<close>

fun flush_loop :: "nat list \<Rightarrow> state \<Rightarrow> exn option \<times> state" where
  "flush_loop [] s = (None, s)"
| "flush_loop (w # ws) s =
     (case run w (s\<lparr>flush_index := length (queue s) - Suc (length ws)\<rparr>) of
        (Some e, s1) \<Rightarrow> (Some e, s1)
      | (None, s1) \<Rightarrow> flush_loop ws s1)"

definition flushSchedulerQueue :: "state \<Rightarrow> exn option \<times> state" where
  "flushSchedulerQueue s =
     (let s1 = s\<lparr>flushing := True, queue := sort (queue s)\<rparr>
      in case flush_loop (queue s1) s1 of
           (Some e, s2) \<Rightarrow> (Some e, s2)
         | (None, s2) \<Rightarrow>
             (None, s2\<lparr>queue := [], has := {}, waiting := False, flushing := False,
                        flush_index := 0\<rparr>))"

section \<open>Runs of the core: any sequence of calls\<close>

text \<open>
  A reference to a watcher exists once the watcher is constructed, with an id between 1
  and the module variable \<open>uid\<close>; a reference to a dep exists once the dep is
  constructed. A call through a reference that does not exist yet is not a call of the
  program: \<open>exec_op\<close> skips it.
\<close>

definition valid_watcher :: "state \<Rightarrow> nat \<Rightarrow> bool" where
  "valid_watcher s w = (0 < w \<and> w \<le> watcher_uid s)"

definition valid_dep :: "state \<Rightarrow> nat \<Rightarrow> bool" where
  "valid_dep s d = (d < dep_uid s)"

datatype op =
    NewDep
  | NewWatcher nat "(nat \<Rightarrow> closure) \<Rightarrow> nat list \<times> (exn + jsval)"
      "jsval \<Rightarrow> jsval \<Rightarrow> exn option" "watcher_options option"
  | Get nat
  | Evaluate nat
  | WatcherDepend nat
  | Update nat
  | Run nat
  | Teardown nat
  | AddDep nat nat
  | CleanupDeps nat
  | Depend nat
  | Notify nat
  | PushTarget "nat option"
  | PopTarget
  | QueueWatcher nat
  | Flush
  | SetClosures "nat \<Rightarrow> closure"
  | SetAsync bool
  | SetBeingDestroyed nat bool

fun exec_op :: "op \<Rightarrow> state \<Rightarrow> state" where
  "exec_op NewDep s = snd (new_Dep s)"
| "exec_op (NewWatcher v g c opts) s = snd (snd (new_Watcher v g c opts s))"
| "exec_op (Get w) s = (if valid_watcher s w then snd (get w s) else s)"
| "exec_op (Evaluate w) s = (if valid_watcher s w then snd (evaluate w s) else s)"
| "exec_op (WatcherDepend w) s = (if valid_watcher s w then watcher_depend w s else s)"
| "exec_op (Update w) s = (if valid_watcher s w then snd (update w s) else s)"
| "exec_op (Run w) s = (if valid_watcher s w then snd (run w s) else s)"
| "exec_op (Teardown w) s = (if valid_watcher s w then teardown w s else s)"
| "exec_op (AddDep w d) s = (if valid_watcher s w \<and> valid_dep s d then addDep w d s else s)"
| "exec_op (CleanupDeps w) s = (if valid_watcher s w then cleanupDeps w s else s)"
| "exec_op (Depend d) s = (if valid_dep s d then depend d s else s)"
| "exec_op (Notify d) s = (if valid_dep s d then snd (notify d s) else s)"
| "exec_op (PushTarget t) s =
     (case t of
        None \<Rightarrow> pushTarget None s
      | Some w \<Rightarrow> if valid_watcher s w then pushTarget (Some w) s else s)"
| "exec_op PopTarget s = popTarget s"
| "exec_op (QueueWatcher w) s = (if valid_watcher s w then queueWatcher w s else s)"
| "exec_op Flush s = snd (flushSchedulerQueue s)"
| "exec_op (SetClosures c) s = s\<lparr>closures := c\<rparr>"
| "exec_op (SetAsync b) s = s\<lparr>async := b\<rparr>"
| "exec_op (SetBeingDestroyed v b) s = s\<lparr>vm_isBeingDestroyed := (vm_isBeingDestroyed s)(v := b)\<rparr>"

definition exec :: "op list \<Rightarrow> state \<Rightarrow> state" where
  "exec ops s = fold exec_op ops s"

text \<open>The state of a freshly loaded program.\<close>

definition blank_watcher :: watcher where
  "blank_watcher =
     \<lparr>vm = 0, cb = (\<lambda>_ _. None), deep = False, user = False, lazy = False, sync = False,
      dirty = False, active = False, deps = [], newDeps = [], depIds = {}, newDepIds = {},
      getter = (\<lambda>_. ([], Inr Undefined)), wvalue = Undefined\<rparr>"

definition blank_closure :: closure where
  "blank_closure =
     \<lparr>val = Undefined, childOb = None, prop_getter = None, prop_setter = None,
      shallow = False, customSetter = False\<rparr>"

definition init_state :: "bool \<Rightarrow> bool \<Rightarrow> jsobj list \<Rightarrow> state" where
  "init_state prd asy h =
     \<lparr>production = prd, async = asy, dep_uid = 0, subs = (\<lambda>_. []), target = None,
      targetStack = [], watcher_uid = 0, watchers = (\<lambda>_. blank_watcher),
      vm_watchers = (\<lambda>_. []), vm_isBeingDestroyed = (\<lambda>_. False),
      queue = [], has = {}, waiting = False, flushing = False, flush_index = 0,
      shouldObserve = True, serverRendering = False, heap = h,
      observers = (\<lambda>_. \<lparr>ob_value = 0, vmCount = 0\<rparr>), closures = (\<lambda>_. blank_closure),
      cells = (\<lambda>_. Undefined), traverse_touches = (\<lambda>_. []),
      cbLog = [], errLog = [], warnLog = []\<rparr>"

text \<open>
  The invariant of the subscriber graph: no \<open>subs\<close> array holds a watcher twice; a
  watcher in \<open>d.subs\<close> exists and has \<open>d.id\<close> in \<open>depIds\<close> or in \<open>newDepIds\<close>; the
  id sets hold only ids of the deps in the arrays beside them; the targets and the queue
  hold existing watchers.
\<close>

definition wf :: "state \<Rightarrow> bool" where
  "wf s =
     ((\<forall>d. distinct (subs s d)) \<and>
      (\<forall>d w. w \<in> set (subs s d) \<longrightarrow>
         valid_watcher s w \<and> (d \<in> depIds (watchers s w) \<or> d \<in> newDepIds (watchers s w))) \<and>
      (\<forall>w. depIds (watchers s w) \<subseteq> set (deps (watchers s w)) \<and>
           newDepIds (watchers s w) \<subseteq> set (newDeps (watchers s w))) \<and>
      (\<forall>w. target s = Some w \<longrightarrow> valid_watcher s w) \<and>
      (\<forall>w. Some w \<in> set (targetStack s) \<longrightarrow> valid_watcher s w) \<and>
      (\<forall>w \<in> set (queue s). valid_watcher s w))"

section \<open>Objects, arrays and their built-in operations\<close>

text \<open>
  A call on the heap either returns a value or throws, in a new state; \<open>None\<close> says that
  the call is not finished within the nesting depth it is given, or that it leaves the
  fragment of the language modelled here (see \<open>defineReactive\<close>).
\<close>

type_synonym 'a result = "((exn + 'a) \<times> state) option"

definition then_do :: "'a result \<Rightarrow> ('a \<Rightarrow> state \<Rightarrow> 'b result) \<Rightarrow> 'b result" where
  "then_do m f =
     (case m of
        None \<Rightarrow> None
      | Some (Inl e, s) \<Rightarrow> Some (Inl e, s)
      | Some (Inr x, s) \<Rightarrow> f x s)"



fun isValidArrayIndex :: "key \<Rightarrow> bool" where
  "isValidArrayIndex (Index _) = True"
| "isValidArrayIndex (Name _) = False"


text \<open>The names of the properties of \<open>Object.prototype\<close>, for \<open>key in Object.prototype\<close>.\<close>

definition Object_prototype_keys :: "string list" where
  "Object_prototype_keys =
     [''constructor'', ''__defineGetter__'', ''__defineSetter__'', ''hasOwnProperty'',
      ''__lookupGetter__'', ''__lookupSetter__'', ''isPrototypeOf'', ''propertyIsEnumerable'',
      ''toString'', ''valueOf'', ''__proto__'', ''toLocaleString'']"


text \<open>
  A reference of the program always points into the heap; \<open>lookup\<close> is \<open>None\<close> for a
  number that is not a reference.
\<close>

definition lookup :: "state \<Rightarrow> nat \<Rightarrow> jsobj option" where
  "lookup s r = (if r < length (heap s) then Some (heap s ! r) else None)"

definition update_obj :: "nat \<Rightarrow> (jsobj \<Rightarrow> jsobj) \<Rightarrow> state \<Rightarrow> state" where
  "update_obj r f s = s\<lparr>heap := (heap s)[r := f (heap s ! r)]\<rparr>"

fun configurable :: "property \<Rightarrow> bool" where
  "configurable (DataProperty _ _ _ c) = c"
| "configurable (AccessorProperty _ _ _ c) = c"
| "configurable (ReactiveProperty _) = True"

fun enumerable :: "property \<Rightarrow> bool" where
  "enumerable (DataProperty _ _ e _) = e"
| "enumerable (AccessorProperty _ _ e _) = e"
| "enumerable (ReactiveProperty _) = True"

text \<open>
  \<open>Object.getOwnPropertyDescriptor(obj, key)\<close>. An array has its elements and its
  \<open>length\<close> as own data properties.
\<close>

definition own_property :: "jsobj \<Rightarrow> key \<Rightarrow> property option" where
  "own_property obj k =
     (if cls obj = ArrayObject then
        (case k of
           Index n \<Rightarrow>
             if n < length (elems obj) then Some (DataProperty (elems obj ! n) True True True)
             else None
         | Name nm \<Rightarrow>
             if nm = ''length''
             then Some (DataProperty (Number (int (length (elems obj)))) True False False)
             else map_of (props obj) k)
      else map_of (props obj) k)"


text \<open>
  \<open>Object.keys(obj)\<close> for an object that is not an array: the enumerable own keys, the
  integer keys in ascending order first, then the names in the order of their creation.
\<close>

fun index_keys :: "key list \<Rightarrow> nat list" where
  "index_keys [] = []"
| "index_keys (Index n # ks) = n # index_keys ks"
| "index_keys (Name _ # ks) = index_keys ks"

fun name_keys :: "key list \<Rightarrow> key list" where
  "name_keys [] = []"
| "name_keys (Index _ # ks) = name_keys ks"
| "name_keys (Name nm # ks) = Name nm # name_keys ks"

definition Object_keys :: "jsobj \<Rightarrow> key list" where
  "Object_keys obj =
     (let ks = map fst (filter (\<lambda>kp. enumerable (snd kp)) (props obj))
      in map Index (sort (index_keys ks)) @ name_keys ks)"

text \<open>Defining a property: in place when the key exists, at the end otherwise.\<close>

fun define_prop :: "key \<Rightarrow> property \<Rightarrow> (key \<times> property) list \<Rightarrow> (key \<times> property) list" where
  "define_prop k p [] = [(k, p)]"
| "define_prop k p (x # xs) = (if fst x = k then (k, p) # xs else x # define_prop k p xs)"










section \<open>observer/index.js\<close>

text \<open>
  \<open>observe\<close>, \<open>new Observer\<close>, \<open>walk\<close>, \<open>observeArray\<close> and \<open>defineReactive\<close>
  call each other. Each is defined here with the function \<open>obs\<close> it calls for
  \<open>observe\<close>; \<open>observe\<close> itself is defined below by recursion on the nesting depth.
\<close>

type_synonym observe_fn = "jsval \<Rightarrow> bool \<Rightarrow> state \<Rightarrow> (nat option) result"

text \<open>Observer.observeArray: \<open>observe(items[i])\<close> for every index.\<close>

fun observeArray :: "observe_fn \<Rightarrow> jsval list \<Rightarrow> state \<Rightarrow> unit result" where
  "observeArray obs [] s = Some (Inr (), s)"
| "observeArray obs (item # items) s =
     then_do (obs item False s) (\<lambda>_ s1. observeArray obs items s1)"

text \<open>
  \<open>defineReactive(obj, key, val, customSetter, shallow)\<close>. The last argument of the
  model is \<open>None\<close> for the call with two arguments (\<open>arguments.length === 2\<close>) and holds
  \<open>val\<close>, whether a \<open>customSetter\<close> is passed, and \<open>shallow\<close> otherwise. The
  pre-defined getter and setter are those of a user-defined accessor property. Two
  cases leave the modelled fragment, with result \<open>None\<close>: the property is already an
  accessor installed by \<open>defineReactive\<close>, or the key is an index of an array.
  \<open>Object.defineProperty\<close> throws a \<open>TypeError\<close> when the property is new and the object
  is not extensible. Reading a property that is absent gives \<open>undefined\<close> (the values
  of inherited properties are not modelled). \<open>initial_value\<close> is \<open>val\<close> after
  \<open>if ((!getter || setter) && arguments.length === 2) val = obj[key]\<close>.
\<close>

fun read_property :: "state \<Rightarrow> property option \<Rightarrow> jsval" where
  "read_property s (Some (DataProperty v _ _ _)) = v"
| "read_property s (Some (AccessorProperty (Some g) _ _ _)) = cells s g"
| "read_property s _ = Undefined"

fun property_get :: "property option \<Rightarrow> nat option" where
  "property_get (Some (AccessorProperty g _ _ _)) = g"
| "property_get _ = None"

fun property_set :: "property option \<Rightarrow> nat option" where
  "property_set (Some (AccessorProperty _ st _ _)) = st"
| "property_set _ = None"

fun is_reactive :: "property option \<Rightarrow> bool" where
  "is_reactive (Some (ReactiveProperty _)) = True"
| "is_reactive _ = False"

definition initial_value ::
  "state \<Rightarrow> property option \<Rightarrow> (jsval \<times> bool \<times> bool) option \<Rightarrow> jsval" where
  "initial_value s property args =
     (case args of
        None \<Rightarrow>
          if property_get property = None \<or> property_set property \<noteq> None
          then read_property s property
          else Undefined
      | Some (v, _, _) \<Rightarrow> v)"

definition defineReactive ::
  "observe_fn \<Rightarrow> nat \<Rightarrow> key \<Rightarrow> (jsval \<times> bool \<times> bool) option \<Rightarrow> state \<Rightarrow> unit result" where
  "defineReactive obs r k args s =
     (let dep = fst (new_Dep s);
          s0 = snd (new_Dep s);
          property = own_property (heap s0 ! r) k
      in if (case property of Some p \<Rightarrow> \<not> configurable p | None \<Rightarrow> False) then Some (Inr (), s0)
         else if is_reactive property \<or> (cls (heap s0 ! r) = ArrayObject \<and> isValidArrayIndex k)
         then None
         else
           (let getter0 = property_get property;
                setter0 = property_set property;
                val0 = initial_value s0 property args;
                custom = (case args of None \<Rightarrow> False | Some (_, c, _) \<Rightarrow> c);
                shallow0 = (case args of None \<Rightarrow> False | Some (_, _, sh) \<Rightarrow> sh)
            in then_do (if shallow0 then Some (Inr None, s0) else obs val0 False s0)
                 (\<lambda>child s1.
                    if property = None \<and> \<not> extensible (heap s1 ! r) then Some (Inl TypeError, s1)
                    else Some (Inr (),
                      update_obj r (\<lambda>obj. obj\<lparr>props := define_prop k (ReactiveProperty dep) (props obj)\<rparr>)
                        (s1\<lparr>closures := (closures s1)
                              (dep := \<lparr>val = val0, childOb = child, prop_getter = getter0,
                                       prop_setter = setter0, shallow = shallow0,
                                       customSetter = custom\<rparr>)\<rparr>)))))"

text \<open>Observer.walk: \<open>defineReactive(obj, keys[i])\<close> for every key of \<open>Object.keys(obj)\<close>.\<close>

fun walk_keys :: "observe_fn \<Rightarrow> nat \<Rightarrow> key list \<Rightarrow> state \<Rightarrow> unit result" where
  "walk_keys obs r [] s = Some (Inr (), s)"
| "walk_keys obs r (k # ks) s =
     then_do (defineReactive obs r k None s) (\<lambda>_ s1. walk_keys obs r ks s1)"

definition walk :: "observe_fn \<Rightarrow> nat \<Rightarrow> state \<Rightarrow> unit result" where
  "walk obs r s = walk_keys obs r (Object_keys (heap s ! r)) s"

text \<open>
  \<open>new Observer(value)\<close>. The observer is identified by the id of its \<open>dep\<close>.
  \<open>mark_observed\<close> is the start of the constructor, up to \<open>def(value, '__ob__', this)\<close>,
  which sets the field \<open>ob\<close>; \<open>augment\<close> is \<open>protoAugment\<close> or \<open>copyAugment\<close>.
\<close>

definition mark_observed :: "nat \<Rightarrow> state \<Rightarrow> state" where
  "mark_observed r s =
     (let d = fst (new_Dep s);
          s1 = snd (new_Dep s);
          s2 = s1\<lparr>observers := (observers s1)(d := \<lparr>ob_value = r, vmCount = 0\<rparr>)\<rparr>
      in update_obj r (\<lambda>obj. obj\<lparr>ob := Some d\<rparr>) s2)"

definition augment :: "nat \<Rightarrow> state \<Rightarrow> state" where
  "augment r s = update_obj r (\<lambda>obj. obj\<lparr>augmented := True\<rparr>) s"

definition new_Observer :: "observe_fn \<Rightarrow> nat \<Rightarrow> state \<Rightarrow> nat result" where
  "new_Observer obs r s =
     (let d = fst (new_Dep s);
          s3 = mark_observed r s
      in if cls (heap s3 ! r) = ArrayObject then
           (let s4 = augment r s3
            in then_do (observeArray obs (elems (heap s4 ! r)) s4) (\<lambda>_ s5. Some (Inr d, s5)))
         else then_do (walk obs r s3) (\<lambda>_ s5. Some (Inr d, s5)))"

text \<open>\<open>observe(value, asRootData)\<close>.\<close>

definition observe_body :: "observe_fn \<Rightarrow> observe_fn" where
  "observe_body obs v asRootData s =
     (case v of
        Object r \<Rightarrow>
          (case lookup s r of
             None \<Rightarrow> Some (Inr None, s)
           | Some obj \<Rightarrow>
               if cls obj = VNodeObject then Some (Inr None, s)
               else
                 then_do
                   (case ob obj of
                      Some b \<Rightarrow> Some (Inr (Some b), s)
                    | None \<Rightarrow>
                        if shouldObserve s \<and> \<not> serverRendering s \<and>
                           (cls obj = ArrayObject \<or> cls obj = PlainObject) \<and>
                           extensible obj \<and> \<not> isVue obj
                        then then_do (new_Observer obs r s) (\<lambda>b s1. Some (Inr (Some b), s1))
                        else Some (Inr None, s))
                   (\<lambda>found s1.
                      case found of
                        Some b \<Rightarrow>
                          if asRootData
                          then Some (Inr (Some b),
                                 s1\<lparr>observers := (observers s1)
                                      (b := (observers s1 b)\<lparr>vmCount := vmCount (observers s1 b) + 1\<rparr>)\<rparr>)
                          else Some (Inr (Some b), s1)
                      | None \<Rightarrow> Some (Inr None, s1)))
      | _ \<Rightarrow> Some (Inr None, s))"

text \<open>
  \<open>observe\<close> with nesting depth \<open>n\<close>: the calls of \<open>observe\<close> inside it have depth
  \<open>n - 1\<close>, and at depth 0 a call that needs a nested call does not finish.
\<close>

primrec observe :: "nat \<Rightarrow> observe_fn" where
  "observe 0 = observe_body (\<lambda>_ _ _. None)"
| "observe (Suc n) = observe_body (observe n)"







section \<open>observer/array.js\<close>




section \<open>observer/index.js: set\<close>



section \<open>Observations on runs, and example states\<close>

definition cb_calls :: "nat \<Rightarrow> state \<Rightarrow> (nat \<times> jsval \<times> jsval) list" where
  "cb_calls w s = filter (\<lambda>e. fst e = w) (cbLog s)"

definition static :: "watcher \<Rightarrow> watcher" where
  "static x = x\<lparr>deps := [], newDeps := [], depIds := {}, newDepIds := {}\<rparr>"

definition untouched :: "nat \<Rightarrow> state \<Rightarrow> state \<Rightarrow> bool" where
  "untouched w s s' =
     (watchers s' w = watchers s w \<and> cb_calls w s' = cb_calls w s \<and>
      (w \<in> set (queue s')) = (w \<in> set (queue s)) \<and>
      (\<forall>d. (w \<in> set (subs s' d)) = (w \<in> set (subs s d))))"

definition reads_of :: "nat \<Rightarrow> state \<Rightarrow> nat list" where
  "reads_of w s =
     (let this = watchers s w;
          reads = fst (getter this (closures s));
          v = (case snd (getter this (closures s)) of Inr x \<Rightarrow> x | Inl _ \<Rightarrow> Undefined)
      in reads @ (if deep this then traverse_touches s v else []))"

definition quiet :: "nat \<Rightarrow> state \<Rightarrow> state \<Rightarrow> bool" where
  "quiet w s s' =
     (watcher_uid s \<le> watcher_uid s' \<and> active (watchers s' w) = active (watchers s w) \<and>
      cb_calls w s' = cb_calls w s)"

definition flag_closures :: "bool \<Rightarrow> int \<Rightarrow> int \<Rightarrow> nat \<Rightarrow> closure" where
  "flag_closures b x y =
     (\<lambda>_. blank_closure)
       (0 := blank_closure\<lparr>val := Boolean b\<rparr>,
        1 := blank_closure\<lparr>val := Number x\<rparr>,
        2 := blank_closure\<lparr>val := Number y\<rparr>)"

definition branch_getter :: "(nat \<Rightarrow> closure) \<Rightarrow> nat list \<times> (exn + jsval)" where
  "branch_getter c =
     (if val (c 0) = Boolean True then ([0, 1], Inr (val (c 1))) else ([0, 2], Inr (val (c 2))))"

definition sync_options :: "watcher_options option" where
  "sync_options = Some \<lparr>opt_deep = False, opt_user = False, opt_lazy = False, opt_sync = True\<rparr>"

definition branch_state :: state where
  "branch_state =
     exec [NewDep, NewDep, NewDep, SetClosures (flag_closures True 1 10),
           NewWatcher 0 branch_getter (\<lambda>_ _. None) sync_options,
           SetClosures (flag_closures False 1 10)]
       (init_state False True [])"

definition late_getter :: "(nat \<Rightarrow> closure) \<Rightarrow> nat list \<times> (exn + jsval)" where
  "late_getter c =
     (if val (c 0) = Boolean True then ([0, 1], Inr (val (c 1))) else ([0], Inr Undefined))"

definition order_state :: "bool \<Rightarrow> state" where
  "order_state prd =
     exec [NewDep, NewDep,
           NewWatcher 0 late_getter (\<lambda>_ _. None) sync_options,
           NewWatcher 0 (\<lambda>c. ([1], Inr (val (c 1)))) (\<lambda>_ _. None) sync_options,
           SetClosures (flag_closures True 1 10), Get 1,
           SetClosures (flag_closures True 2 10)]
       (init_state prd False [])"

text \<open>Example objects and a state around them.\<close>

definition frozen_object :: jsobj where
  "frozen_object =
     \<lparr>cls = PlainObject, props = [(Name ''a'', DataProperty (Number 1) False True False)],
      elems = [], inherited = Object_prototype_keys, extensible = False, isVue = False,
      ob = None, augmented = False\<rparr>"


definition plain_object :: "(key \<times> property) list \<Rightarrow> jsobj" where
  "plain_object ps =
     \<lparr>cls = PlainObject, props = ps, elems = [], inherited = Object_prototype_keys,
      extensible = True, isVue = False, ob = None, augmented = False\<rparr>"

definition observed_frozen_object :: jsobj where
  "observed_frozen_object =
     \<lparr>cls = PlainObject, props = [(Name ''a'', ReactiveProperty 1)],
      elems = [], inherited = Object_prototype_keys, extensible = False, isVue = False,
      ob = Some 0, augmented = False\<rparr>"

definition vnode_object :: jsobj where
  "vnode_object =
     \<lparr>cls = VNodeObject, props = [], elems = [], inherited = Object_prototype_keys,
      extensible = True, isVue = False, ob = None, augmented = False\<rparr>"

definition heap_state :: "jsobj list \<Rightarrow> state" where
  "heap_state h = (init_state False True h)\<lparr>dep_uid := 2\<rparr>"

text \<open>
  For the termination of \<open>observe\<close>: the number of objects without observer, and the
  heaps \<open>observe\<close> is meant for (the keys of an object are distinct, and an object without
  observer has no reactive property). \<open>ext X s s'\<close> tells what a call of \<open>observe\<close>
  leaves as it is: everything but the heap, the deps, the observers and the closures; the
  subscribers and closures of the deps that exist; the class, elements and flags of every
  object; the observer of an observed object; and, outside \<open>X\<close>, every observed object as a
  whole. \<open>observer_of\<close> is the observer \<open>observe\<close> returns for a value, and
  \<open>observable\<close> tells whether it returns one.
\<close>

definition unobserved :: "state \<Rightarrow> nat" where
  "unobserved s = length (filter (\<lambda>obj. ob obj = None) (heap s))"

definition tidy :: "state \<Rightarrow> bool" where
  "tidy s =
     (\<forall>x < length (heap s).
        distinct (map fst (props (heap s ! x))) \<and>
        (ob (heap s ! x) = None \<longrightarrow>
           (\<forall>kp \<in> set (props (heap s ! x)). \<not> is_reactive (Some (snd kp)))))"

definition rest :: "state \<Rightarrow> state" where
  "rest s =
     s\<lparr>dep_uid := 0, subs := (\<lambda>_. []), heap := [],
       observers := (\<lambda>_. \<lparr>ob_value = 0, vmCount = 0\<rparr>), closures := (\<lambda>_. blank_closure)\<rparr>"

definition same_shape :: "jsobj \<Rightarrow> jsobj \<Rightarrow> bool" where
  "same_shape x y =
     (cls y = cls x \<and> elems y = elems x \<and> extensible y = extensible x \<and> isVue y = isVue x \<and>
      inherited y = inherited x \<and> (ob x \<noteq> None \<longrightarrow> ob y = ob x))"

definition ext :: "nat set \<Rightarrow> state \<Rightarrow> state \<Rightarrow> bool" where
  "ext X s s' =
     (rest s' = rest s \<and> dep_uid s \<le> dep_uid s' \<and>
      (\<forall>d. subs s' d = (if dep_uid s \<le> d \<and> d < dep_uid s' then [] else subs s d)) \<and>
      (\<forall>d < dep_uid s. closures s' d = closures s d) \<and>
      length (heap s') = length (heap s) \<and>
      (\<forall>x < length (heap s).
         same_shape (heap s ! x) (heap s' ! x) \<and>
         (ob (heap s ! x) \<noteq> None \<longrightarrow> x \<notin> X \<longrightarrow> heap s' ! x = heap s ! x)))"

definition observable :: "state \<Rightarrow> jsval \<Rightarrow> bool" where
  "observable s v =
     (case v of
        Object r \<Rightarrow>
          (case lookup s r of
             Some obj \<Rightarrow>
               cls obj \<noteq> VNodeObject \<and>
               (ob obj \<noteq> None \<or>
                (shouldObserve s \<and> \<not> serverRendering s \<and>
                 (cls obj = ArrayObject \<or> cls obj = PlainObject) \<and> extensible obj \<and> \<not> isVue obj))
           | None \<Rightarrow> False)
      | _ \<Rightarrow> False)"

definition observer_of :: "state \<Rightarrow> jsval \<Rightarrow> nat option" where
  "observer_of s v =
     (case v of
        Object r \<Rightarrow>
          (case lookup s r of
             Some obj \<Rightarrow> if cls obj = VNodeObject then None else ob obj
           | None \<Rightarrow> None)
      | _ \<Rightarrow> None)"

definition sufficient :: "nat \<Rightarrow> observe_fn \<Rightarrow> bool" where
  "sufficient m obs =
     (\<forall>v a s. tidy s \<and> unobserved s < m \<longrightarrow>
        (\<exists>res s'. obs v a s = Some (Inr res, s') \<and> tidy s' \<and> unobserved s' \<le> unobserved s \<and>
           ext {} s s' \<and> res = observer_of s' v \<and> (observable s v \<longleftrightarrow> res \<noteq> None)))"



definition hp :: "state \<Rightarrow> jsobj list \<times> (nat \<Rightarrow> closure) \<times> (nat \<Rightarrow> observer) \<times> nat \<times> (nat \<Rightarrow> jsval)" where
  "hp s = (heap s, closures s, observers s, dep_uid s, cells s)"



section \<open>The invariant holds along every run\<close>

lemma remove_arr_remove1: "remove_arr arr x = remove1 x arr"
proof -
  have a: "indexOf xs x = None \<Longrightarrow> remove1 x xs = xs" for xs
    by (induction xs) (auto split: if_splits)
  have b: "indexOf xs x = Some i \<Longrightarrow> take i xs @ drop (Suc i) xs = remove1 x xs" for xs i
    by (induction xs arbitrary: i) (auto split: if_splits)
  show ?thesis
    by (auto simp: remove_arr_def splice1_def a b split: option.splits)
qed

lemma wf_init: "wf (init_state p a h)"
  by (simp add: wf_def init_state_def blank_watcher_def)

lemma fold_removeSub:
  "fold (\<lambda>dep st. if P dep then removeSub dep w st else st) ds s =
   s\<lparr>subs := \<lambda>d. (remove1 w ^^ length (filter (\<lambda>x. x = d \<and> P x) ds)) (subs s d)\<rparr>"
proof (induction ds arbitrary: s)
  case Nil
  show ?case by simp
next
  case (Cons x xs)
  show ?case
    by (simp add: Cons.IH removeSub_def remove_arr_remove1 fun_eq_iff funpow_swap1)
qed

lemma set_funpow_remove1: "set ((remove1 w ^^ n) xs) \<subseteq> set xs"
  by (induction n) (auto dest: notin_set_remove1)

lemma distinct_funpow_remove1: "distinct xs \<Longrightarrow> distinct ((remove1 w ^^ n) xs)"
  by (induction n) auto

lemma notin_funpow_remove1: "distinct xs \<Longrightarrow> 0 < n \<Longrightarrow> w \<notin> set ((remove1 w ^^ n) xs)"
  by (induction n) (auto simp: distinct_funpow_remove1 dest: notin_set_remove1)

lemma other_funpow_remove1: "x \<noteq> w \<Longrightarrow> x \<in> set ((remove1 w ^^ n) xs) \<longleftrightarrow> x \<in> set xs"
  by (induction n) auto

lemma cleanupDeps_eq:
  "cleanupDeps w s =
   s\<lparr>subs := \<lambda>d. (remove1 w ^^ length (filter (\<lambda>x. x = d \<and> x \<notin> newDepIds (watchers s w))
                     (rev (deps (watchers s w))))) (subs s d),
     watchers := (watchers s)
       (w := (watchers s w)\<lparr>depIds := newDepIds (watchers s w), newDepIds := {},
                             deps := newDeps (watchers s w), newDeps := []\<rparr>)\<rparr>"
  by (simp add: cleanupDeps_def Let_def fold_removeSub)

lemma wf_addDep: "wf s \<Longrightarrow> valid_watcher s w \<Longrightarrow> wf (addDep w d s)"
  unfolding wf_def addDep_def addSub_def Let_def valid_watcher_def
  by (auto split: if_splits)

lemma cleanup_key:
  assumes "wf s"
    and "w \<in> set ((remove1 w ^^ length (filter (\<lambda>x. x = d \<and> x \<notin> newDepIds (watchers s w))
                     (rev (deps (watchers s w))))) (subs s d))"
  shows "d \<in> newDepIds (watchers s w)"
proof (rule ccontr)
  assume n: "d \<notin> newDepIds (watchers s w)"
  let ?n = "length (filter (\<lambda>x. x = d \<and> x \<notin> newDepIds (watchers s w)) (rev (deps (watchers s w))))"
  from assms(2) have "w \<in> set (subs s d)"
    by (rule subsetD[OF set_funpow_remove1])
  with assms(1) n have "d \<in> depIds (watchers s w)"
    unfolding wf_def by blast
  with assms(1) have "d \<in> set (deps (watchers s w))"
    unfolding wf_def by blast
  with n have "filter (\<lambda>x. x = d \<and> x \<notin> newDepIds (watchers s w)) (rev (deps (watchers s w))) \<noteq> []"
    by (simp add: filter_empty_conv)
  then have p: "0 < ?n"
    by simp
  from assms(1) have d: "distinct (subs s d)"
    unfolding wf_def by blast
  have "w \<notin> set ((remove1 w ^^ ?n) (subs s d))"
    by (rule notin_funpow_remove1[OF d p])
  with assms(2) show False by blast
qed

lemma wf_cleanupDeps: "wf s \<Longrightarrow> wf (cleanupDeps w s)"
proof -
  assume a: "wf s"
  let ?n = "\<lambda>d. length (filter (\<lambda>x. x = d \<and> x \<notin> newDepIds (watchers s w)) (rev (deps (watchers s w))))"
  let ?s = "cleanupDeps w s"
  have sb: "subs ?s d = (remove1 w ^^ ?n d) (subs s d)" for d
    by (simp add: cleanupDeps_eq)
  have ww: "watchers ?s w = (watchers s w)\<lparr>depIds := newDepIds (watchers s w), newDepIds := {},
                             deps := newDeps (watchers s w), newDeps := []\<rparr>"
    by (simp add: cleanupDeps_eq)
  have wo: "x \<noteq> w \<Longrightarrow> watchers ?s x = watchers s x" for x
    by (simp add: cleanupDeps_eq)
  have rest: "watcher_uid ?s = watcher_uid s" "target ?s = target s"
    "targetStack ?s = targetStack s" "queue ?s = queue s"
    by (simp_all add: cleanupDeps_eq)
  have c1: "distinct (subs ?s d)" for d
    using a by (simp add: sb wf_def distinct_funpow_remove1)
  have c2: "valid_watcher ?s x \<and> (d \<in> depIds (watchers ?s x) \<or> d \<in> newDepIds (watchers ?s x))"
    if h: "x \<in> set (subs ?s d)" for x d
  proof -
    from h have "x \<in> set ((remove1 w ^^ ?n d) (subs s d))"
      by (simp add: sb)
    then have m: "x \<in> set (subs s d)"
      by (rule subsetD[OF set_funpow_remove1])
    with a have v: "valid_watcher s x" and e: "d \<in> depIds (watchers s x) \<or> d \<in> newDepIds (watchers s x)"
      unfolding wf_def by blast+
    show ?thesis
    proof (cases "x = w")
      case True
      with h have "w \<in> set ((remove1 w ^^ ?n d) (subs s d))"
        by (simp add: sb)
      then have "d \<in> newDepIds (watchers s w)"
        by (rule cleanup_key[OF a])
      with True v show ?thesis by (simp add: ww valid_watcher_def rest)
    next
      case False
      with v e show ?thesis by (simp add: wo valid_watcher_def rest)
    qed
  qed
  have c3: "depIds (watchers ?s x) \<subseteq> set (deps (watchers ?s x)) \<and>
            newDepIds (watchers ?s x) \<subseteq> set (newDeps (watchers ?s x))" for x
    using a by (cases "x = w") (simp_all add: ww wo wf_def)
  have c4: "\<forall>x. target ?s = Some x \<longrightarrow> valid_watcher ?s x"
    "\<forall>x. Some x \<in> set (targetStack ?s) \<longrightarrow> valid_watcher ?s x"
    "\<forall>x\<in>set (queue ?s). valid_watcher ?s x"
    using a by (simp_all add: rest valid_watcher_def wf_def)
  show ?thesis
    unfolding wf_def
    using c1 c2 c3 c4 by blast
qed

lemma wf_depend: "wf s \<Longrightarrow> wf (depend d s)"
proof (cases "target s")
  case None
  assume "wf s"
  with None show ?thesis by (simp add: depend_def)
next
  case (Some w)
  assume a: "wf s"
  with Some have "valid_watcher s w" by (simp add: wf_def)
  with a Some show ?thesis by (simp add: depend_def wf_addDep)
qed

lemma wf_fold_depend: "wf s \<Longrightarrow> wf (fold depend ds s)"
  by (induction ds arbitrary: s) (simp_all add: wf_depend)

lemma wf_pushTarget: "wf s \<Longrightarrow> valid_watcher s w \<Longrightarrow> wf (pushTarget (Some w) s)"
  unfolding wf_def pushTarget_def valid_watcher_def
  by auto

lemma wf_pushTarget_None: "wf s \<Longrightarrow> wf (pushTarget None s)"
  unfolding wf_def pushTarget_def valid_watcher_def
  by auto


lemma last_butlast_in_set: "butlast xs \<noteq> [] \<Longrightarrow> last (butlast xs) \<in> set xs"
  by (meson in_set_butlastD last_in_set)

lemma wf_popTarget: "wf s \<Longrightarrow> wf (popTarget s)"
  unfolding wf_def popTarget_def valid_watcher_def Let_def
  by (auto dest: last_butlast_in_set in_set_butlastD)

lemma wf_handleError: "wf s \<Longrightarrow> wf (handleError e w s)"
  unfolding wf_def handleError_def valid_watcher_def by simp


lemma wf_get_try: "wf s \<Longrightarrow> wf (snd (snd (get_try w s)))"
  by (simp add: get_try_def Let_def wf_fold_depend wf_handleError split: sum.splits)

lemma wf_get_finally: "wf s \<Longrightarrow> wf (get_finally w v s)"
  by (simp add: get_finally_def Let_def wf_fold_depend wf_popTarget wf_cleanupDeps)

lemma get_state: "snd (get w s) = get_finally w (fst (snd (get_try w (pushTarget (Some w) s))))
    (snd (snd (get_try w (pushTarget (Some w) s))))"
  by (simp add: get_def Let_def split: prod.splits option.splits)

lemma wf_get: "wf s \<Longrightarrow> valid_watcher s w \<Longrightarrow> wf (snd (get w s))"
  by (simp add: get_state wf_get_finally wf_get_try wf_pushTarget)

lemma wf_cbLog: "wf (s\<lparr>cbLog := l\<rparr>) = wf s"
  by (simp add: wf_def valid_watcher_def)

lemma wf_watchers_upd:
  assumes "wf s" "depIds x = depIds (watchers s w)" "newDepIds x = newDepIds (watchers s w)"
    "deps x = deps (watchers s w)" "newDeps x = newDeps (watchers s w)"
  shows "wf (s\<lparr>watchers := (watchers s)(w := x)\<rparr>)"
  using assms unfolding wf_def valid_watcher_def by simp

lemma wf_invoke: "wf s \<Longrightarrow> wf (invokeWithErrorHandling w v ov s)"
  by (simp add: invokeWithErrorHandling_def Let_def wf_handleError wf_cbLog split: option.splits)

lemma wf_run: "wf s \<Longrightarrow> valid_watcher s w \<Longrightarrow> wf (snd (run w s))"
proof -
  assume a: "wf s" and v: "valid_watcher s w"
  have g: "wf (snd (get w s))" by (rule wf_get[OF a v])
  show ?thesis
    using a g
    by (auto simp: run_def Let_def wf_invoke wf_cbLog wf_watchers_upd split: prod.splits sum.splits)
qed


lemma watcher_uid_addDep [simp]: "watcher_uid (addDep w d s) = watcher_uid s"
  by (simp add: addDep_def addSub_def Let_def)

lemma watcher_uid_depend [simp]: "watcher_uid (depend d s) = watcher_uid s"
  by (simp add: depend_def split: option.splits)

lemma watcher_uid_fold_depend [simp]: "watcher_uid (fold depend ds s) = watcher_uid s"
  by (induction ds arbitrary: s) simp_all

lemma watcher_uid_cleanupDeps [simp]: "watcher_uid (cleanupDeps w s) = watcher_uid s"
  by (simp add: cleanupDeps_eq)

lemma watcher_uid_get_try [simp]: "watcher_uid (snd (snd (get_try w s))) = watcher_uid s"
  by (simp add: get_try_def Let_def handleError_def split: sum.splits)

lemma watcher_uid_get_finally [simp]: "watcher_uid (get_finally w v s) = watcher_uid s"
  by (simp add: get_finally_def Let_def popTarget_def)

lemma watcher_uid_get [simp]: "watcher_uid (snd (get w s)) = watcher_uid s"
  by (simp add: get_state pushTarget_def)

lemma watcher_uid_run [simp]: "watcher_uid (snd (run w s)) = watcher_uid s"
proof -
  obtain r s1 where g: "get w s = (r, s1)" by fastforce
  have "watcher_uid s1 = watcher_uid s" using watcher_uid_get[of w s] g by simp
  then show ?thesis
    using g by (auto simp: run_def Let_def invokeWithErrorHandling_def handleError_def
        split: prod.splits sum.splits option.splits)
qed

lemma watcher_uid_update [simp]: "watcher_uid (snd (update w s)) = watcher_uid s"
  by (simp add: update_def Let_def queueWatcher_def)

lemma valid_watcher_cong: "watcher_uid s' = watcher_uid s \<Longrightarrow> valid_watcher s' w = valid_watcher s w"
  by (simp add: valid_watcher_def)

lemma wf_queueWatcher: "wf s \<Longrightarrow> valid_watcher s w \<Longrightarrow> wf (queueWatcher w s)"
proof -
  assume a: "wf s" and v: "valid_watcher s w"
  have "set (insert_sorted_from i w q) = insert w (set q)" for i q
  proof -
    have "set (take (Suc i) q) \<union> set (drop (Suc i) q) = set q"
      by (metis append_take_drop_id set_append)
    moreover have "set (takeWhile (\<lambda>x. x \<le> w) (drop (Suc i) q)) \<union> set (dropWhile (\<lambda>x. x \<le> w) (drop (Suc i) q))
        = set (drop (Suc i) q)"
      by (metis takeWhile_dropWhile_id set_append)
    ultimately show ?thesis by (auto simp: Let_def)
  qed
  then show ?thesis
    using a v unfolding wf_def queueWatcher_def valid_watcher_def Let_def
    by (simp del: insert_sorted_from.simps)
qed

lemma wf_update: "wf s \<Longrightarrow> valid_watcher s w \<Longrightarrow> wf (snd (update w s))"
  by (simp add: update_def Let_def wf_run wf_queueWatcher wf_watchers_upd)

lemma wf_notify_loop:
  "wf s \<Longrightarrow> \<forall>w \<in> set ws. valid_watcher s w \<Longrightarrow> wf (snd (notify_loop ws s))"
proof (induction ws arbitrary: s)
  case Nil
  then show ?case by simp
next
  case (Cons w ws)
  obtain r s1 where u: "update w s = (r, s1)" by fastforce
  have w1: "wf s1" using wf_update[of s w] Cons.prems u by simp
  have "watcher_uid s1 = watcher_uid s" using watcher_uid_update[of w s] u by simp
  then have v1: "\<forall>x \<in> set ws. valid_watcher s1 x"
    using Cons.prems by (simp add: valid_watcher_def)
  show ?case
    using Cons.IH[OF w1 v1] w1 u by (simp split: option.splits)
qed

lemma wf_notify: "wf s \<Longrightarrow> wf (snd (notify d s))"
proof -
  assume a: "wf s"
  have "set (notify_order d s) = set (subs s d)"
    by (simp add: notify_order_def Let_def)
  with a have "\<forall>w \<in> set (notify_order d s). valid_watcher s w"
    unfolding wf_def by blast
  with a show ?thesis
    by (simp add: notify_def wf_notify_loop)
qed

lemma wf_evaluate: "wf s \<Longrightarrow> valid_watcher s w \<Longrightarrow> wf (snd (evaluate w s))"
proof -
  assume a: "wf s" and v: "valid_watcher s w"
  have g: "wf (snd (get w s))" by (rule wf_get[OF a v])
  show ?thesis
    using g by (auto simp: evaluate_def wf_watchers_upd split: prod.splits sum.splits)
qed

lemma wf_watcher_depend: "wf s \<Longrightarrow> wf (watcher_depend w s)"
  by (simp add: watcher_depend_def wf_fold_depend)

lemma fold_removeSub_all:
  "fold (\<lambda>dep st. removeSub dep w st) ds s =
   s\<lparr>subs := \<lambda>d. (remove1 w ^^ length (filter (\<lambda>x. x = d) ds)) (subs s d)\<rparr>"
  using fold_removeSub[of "\<lambda>_. True" w ds s] by simp

lemma wf_subs_shrink:
  assumes "wf s" "\<And>d. distinct (f d)" "\<And>d. set (f d) \<subseteq> set (subs s d)"
  shows "wf (s\<lparr>subs := f\<rparr>)"
proof -
  have m: "x \<in> set (subs s d)" if "x \<in> set (f d)" for x d
    using assms(3) that by blast
  have c2: "valid_watcher s x \<and> (d \<in> depIds (watchers s x) \<or> d \<in> newDepIds (watchers s x))"
    if "x \<in> set (f d)" for x d
    using assms(1) m[OF that] unfolding wf_def by blast
  have c3: "\<forall>w. depIds (watchers s w) \<subseteq> set (deps (watchers s w)) \<and>
           newDepIds (watchers s w) \<subseteq> set (newDeps (watchers s w))"
    and c4: "\<forall>w. target s = Some w \<longrightarrow> valid_watcher s w"
    and c5: "\<forall>w. Some w \<in> set (targetStack s) \<longrightarrow> valid_watcher s w"
    and c6: "\<forall>w \<in> set (queue s). valid_watcher s w"
    using assms(1) unfolding wf_def by blast+
  show ?thesis
    unfolding wf_def
    using assms(2) c2 c3 c4 c5 c6 by (simp add: valid_watcher_def)
qed

lemma wf_vm_watchers: "wf (s\<lparr>vm_watchers := l\<rparr>) = wf s"
  by (simp add: wf_def valid_watcher_def)

lemma wf_teardown: "wf s \<Longrightarrow> wf (teardown w s)"
proof -
  assume a: "wf s"
  have d: "\<And>s'. wf s' \<Longrightarrow> wf (fold (\<lambda>dep st. removeSub dep w st) (rev (deps (watchers s w))) s')"
    unfolding fold_removeSub_all
    by (rule wf_subs_shrink) (simp_all add: wf_def distinct_funpow_remove1 set_funpow_remove1)
  show ?thesis
    using a
    by (simp add: teardown_def Let_def d wf_vm_watchers wf_watchers_upd)
qed


lemma wf_flush_index: "wf (s\<lparr>flush_index := i\<rparr>) = wf s"
  by (simp add: wf_def valid_watcher_def)

lemma wf_flush_loop:
  "wf s \<Longrightarrow> \<forall>w \<in> set ws. valid_watcher s w \<Longrightarrow> wf (snd (flush_loop ws s))"
proof (induction ws arbitrary: s)
  case Nil
  then show ?case by simp
next
  case (Cons w ws)
  let ?s0 = "s\<lparr>flush_index := length (queue s) - Suc (length ws)\<rparr>"
  obtain r s1 where u: "run w ?s0 = (r, s1)" by fastforce
  have w0: "wf ?s0" using Cons.prems(1) by (simp add: wf_flush_index)
  have v0: "valid_watcher ?s0 w" using Cons.prems(2) by (simp add: valid_watcher_def)
  have w1: "wf s1" using wf_run[OF w0 v0] u by simp
  have "watcher_uid s1 = watcher_uid s" using watcher_uid_run[of w ?s0] u by simp
  then have v1: "\<forall>x \<in> set ws. valid_watcher s1 x"
    using Cons.prems by (simp add: valid_watcher_def)
  show ?case
    using Cons.IH[OF w1 v1] w1 u by (simp split: option.splits)
qed

lemma wf_flush: "wf s \<Longrightarrow> wf (snd (flushSchedulerQueue s))"
proof -
  assume a: "wf s"
  let ?s1 = "s\<lparr>flushing := True, queue := sort (queue s)\<rparr>"
  have w1: "wf ?s1" using a by (simp add: wf_def valid_watcher_def)
  then have v1: "\<forall>w \<in> set (queue ?s1). valid_watcher ?s1 w"
    unfolding wf_def by blast
  obtain r s2 where f: "flush_loop (queue ?s1) ?s1 = (r, s2)" by fastforce
  have w2: "wf s2" using wf_flush_loop[OF w1 v1] f by simp
  then have "wf (s2\<lparr>queue := [], has := {}, waiting := False, flushing := False, flush_index := 0\<rparr>)"
    by (simp add: wf_def valid_watcher_def)
  with w2 f show ?thesis
    by (simp add: flushSchedulerQueue_def Let_def split: option.splits)
qed

lemma wf_new_Dep: "wf s \<Longrightarrow> wf (snd (new_Dep s))"
  by (simp add: new_Dep_def wf_def valid_watcher_def)

lemma init_fields_deps [simp]:
  "deps (init_fields v g c opts) = []" "newDeps (init_fields v g c opts) = []"
  "depIds (init_fields v g c opts) = {}" "newDepIds (init_fields v g c opts) = {}"
  by (simp_all add: init_fields_def Let_def)

lemma wf_new_Watcher: "wf s \<Longrightarrow> wf (snd (snd (new_Watcher v g c opts s)))"
proof -
  assume a: "wf s"
  let ?w = "watcher_uid s + 1"
  define s1 where "s1 = s\<lparr>vm_watchers := (vm_watchers s)(v := vm_watchers s v @ [?w]),
                 watcher_uid := ?w, watchers := (watchers s)(?w := init_fields v g c opts)\<rparr>"
  have nw: "?w \<notin> set (subs s d)" for d
    using a unfolding wf_def valid_watcher_def by fastforce
  have w1: "wf s1"
    using a nw unfolding wf_def valid_watcher_def s1_def
    by (auto simp: le_Suc_eq)
  have v1: "valid_watcher s1 ?w" by (simp add: valid_watcher_def s1_def)
  obtain r s2 where g: "get ?w s1 = (r, s2)" by fastforce
  have w2: "wf s2" using wf_get[OF w1 v1] g by simp
  have e: "new_Watcher v g c opts s =
     (if lazy (init_fields v g c opts) then (None, ?w, s1)
      else (case get ?w s1 of
                 (Inl e, s2) \<Rightarrow> (Some e, ?w, s2)
               | (Inr x, s2) \<Rightarrow>
                   (None, ?w, s2\<lparr>watchers := (watchers s2)(?w := (watchers s2 ?w)\<lparr>wvalue := x\<rparr>)\<rparr>)))"
    unfolding new_Watcher_def Let_def s1_def by (rule refl)
  show ?thesis
    unfolding e using w1 w2 g
    by (auto simp: wf_watchers_upd split: sum.splits)
qed

lemma wf_exec_op: "wf s \<Longrightarrow> wf (exec_op x s)"
proof (cases x)
  case (PushTarget t)
  assume "wf s"
  then show ?thesis
    using PushTarget by (cases t) (simp_all add: wf_pushTarget wf_pushTarget_None)
next
  case (SetClosures c)
  assume "wf s"
  then show ?thesis using SetClosures by (simp add: wf_def valid_watcher_def)
next
  case (SetAsync b)
  assume "wf s"
  then show ?thesis using SetAsync by (simp add: wf_def valid_watcher_def)
next
  case (SetBeingDestroyed v b)
  assume "wf s"
  then show ?thesis using SetBeingDestroyed by (simp add: wf_def valid_watcher_def)
qed (simp_all add: wf_new_Dep wf_new_Watcher wf_get wf_evaluate wf_watcher_depend wf_update
    wf_run wf_teardown wf_addDep wf_cleanupDeps wf_depend wf_notify wf_popTarget
    wf_queueWatcher wf_flush)

lemma wf_exec: "wf s \<Longrightarrow> wf (exec ops s)"
  unfolding exec_def by (induction ops arbitrary: s) (simp_all add: wf_exec_op)

lemma count_le_1: "distinct xs \<Longrightarrow> count_list xs x \<le> 1"
  by (induction xs) (auto simp: count_list_0_iff)

text \<open>
  Claim C1. Starting from any state that satisfies the invariant, after any sequence of
  calls (evaluations, re-evaluations, teardowns, notifications, direct calls of
  \<open>addDep\<close> and \<open>cleanupDeps\<close> in any interleaving) every \<open>d.subs\<close> holds every
  watcher \<open>t\<close> at most once. \<open>addDep\<close> appends \<open>t\<close> to \<open>d.subs\<close> exactly when
  \<open>d.id\<close> is neither in \<open>newDepIds\<close> nor in \<open>depIds\<close>.
\<close>

theorem C1_no_double_subscribe:
  "wf s \<Longrightarrow>
   count_list (subs (exec ops s) d) t \<le> 1 \<and>
   subs (addDep t d s) d =
     (if d \<notin> newDepIds (watchers s t) \<and> d \<notin> depIds (watchers s t)
      then subs s d @ [t] else subs s d)"
proof -
  assume a: "wf s"
  have "wf (exec ops s)" by (rule wf_exec[OF a])
  then have "distinct (subs (exec ops s) d)"
    unfolding wf_def by blast
  then have "count_list (subs (exec ops s) d) t \<le> 1" by (rule count_le_1)
  moreover have "subs (addDep t d s) d =
     (if d \<notin> newDepIds (watchers s t) \<and> d \<notin> depIds (watchers s t)
      then subs s d @ [t] else subs s d)"
    by (simp add: addDep_def addSub_def Let_def)
  ultimately show ?thesis by blast
qed


lemmas core_defs = exec_def new_Dep_def new_Watcher_def init_fields_def get_def get_try_def
  get_finally_def pushTarget_def popTarget_def depend_def addDep_def addSub_def
  cleanupDeps_def removeSub_def remove_arr_def splice1_def handleError_def run_def
  update_def queueWatcher_def notify_def notify_order_def evaluate_def teardown_def
  watcher_depend_def invokeWithErrorHandling_def flushSchedulerQueue_def
  valid_watcher_def valid_dep_def init_state_def blank_watcher_def blank_closure_def
  strict_eq_def Let_def cb_calls_def reads_of_def

lemmas example_defs = flag_closures_def branch_getter_def sync_options_def late_getter_def

theorem C1_witness:
  "wf (init_state False True []) \<and>
   subs (exec [NewDep, NewWatcher 0 (\<lambda>_. ([0, 0], Inr (Number 1))) (\<lambda>_ _. None) None, Get 1, Run 1]
          (init_state False True [])) 0 = [1] \<and>
   count_list (subs (exec [NewDep, NewWatcher 0 (\<lambda>_. ([0, 0], Inr (Number 1))) (\<lambda>_ _. None) None, Get 1, Run 1]
          (init_state False True [])) 0) 1 \<le> 1 \<and>
   subs (addDep 1 0 (init_state False True [])) 0 = [1]"
proof -
  have w: "wf (init_state False True [])" by (rule wf_init)
  have e: "subs (exec [NewDep, NewWatcher 0 (\<lambda>_. ([0, 0], Inr (Number 1))) (\<lambda>_ _. None) None, Get 1, Run 1]
          (init_state False True [])) 0 = [1]"
    by (simp add: core_defs)
  have a: "subs (addDep 1 0 (init_state False True [])) 0 = [1]"
    by (simp add: core_defs)
  show ?thesis
    using C1_no_double_subscribe[OF w, of "[NewDep, NewWatcher 0 (\<lambda>_. ([0, 0], Inr (Number 1))) (\<lambda>_ _. None) None, Get 1, Run 1]" 0 1] w e a
    by simp
qed

lemma untouched_refl [simp]: "untouched w s s"
  by (simp add: untouched_def)

lemma untouched_trans: "untouched w s s1 \<Longrightarrow> untouched w s1 s2 \<Longrightarrow> untouched w s s2"
  by (simp add: untouched_def)

lemma target_addDep [simp]: "target (addDep u d s) = target s"
  by (simp add: addDep_def addSub_def Let_def)

lemma target_fold_addDep [simp]: "target (fold (addDep u) ds s) = target s"
  by (induction ds arbitrary: s) simp_all

lemma fold_depend_target: "target s = Some u \<Longrightarrow> fold depend ds s = fold (addDep u) ds s"
  by (induction ds arbitrary: s) (simp_all add: depend_def)

lemma untouched_addDep: "u \<noteq> w \<Longrightarrow> untouched w s (addDep u d s)"
  by (simp add: untouched_def addDep_def addSub_def Let_def cb_calls_def)

lemma untouched_fold_addDep: "u \<noteq> w \<Longrightarrow> untouched w s (fold (addDep u) ds s)"
proof (induction ds arbitrary: s)
  case Nil
  show ?case by simp
next
  case (Cons d ds)
  show ?case
    using untouched_trans[OF untouched_addDep[OF Cons.prems, of s d] Cons.IH[OF Cons.prems, of "addDep u d s"]]
    by simp
qed

lemma untouched_cleanupDeps: "u \<noteq> w \<Longrightarrow> untouched w s (cleanupDeps u s)"
  by (simp add: untouched_def cleanupDeps_eq cb_calls_def other_funpow_remove1)

lemma untouched_pushTarget: "untouched w s (pushTarget t s)"
  by (simp add: untouched_def pushTarget_def cb_calls_def)

lemma untouched_popTarget: "untouched w s (popTarget s)"
  by (simp add: untouched_def popTarget_def cb_calls_def Let_def)

lemma untouched_handleError: "untouched w s (handleError e u s)"
  by (simp add: untouched_def handleError_def cb_calls_def)

lemma target_handleError [simp]: "target (handleError e u s) = target s"
  by (simp add: handleError_def)

lemma get_try_target: "target s = Some u \<Longrightarrow> target (snd (snd (get_try x s))) = Some u"
  by (simp add: get_try_def Let_def fold_depend_target split: sum.splits)

lemma untouched_get_try: "target s = Some u \<Longrightarrow> u \<noteq> w \<Longrightarrow> untouched w s (snd (snd (get_try x s)))"
proof -
  assume t: "target s = Some u" and n: "u \<noteq> w"
  let ?s2 = "fold (addDep u) (fst (getter (watchers s x) (closures s))) s"
  have a: "untouched w s ?s2" by (rule untouched_fold_addDep[OF n])
  have b: "untouched w s (handleError e x ?s2)" for e
    by (rule untouched_trans[OF a untouched_handleError])
  show ?thesis
    using a b by (simp add: get_try_def Let_def fold_depend_target[OF t] split: sum.splits)
qed

lemma untouched_get_finally:
  "target s = Some u \<Longrightarrow> u \<noteq> w \<Longrightarrow> untouched w s (get_finally u v s)"
proof -
  assume t: "target s = Some u" and n: "u \<noteq> w"
  let ?s4 = "if deep (watchers s u) then fold depend (traverse_touches s v) s else s"
  have a: "untouched w s ?s4"
    using untouched_fold_addDep[OF n] by (simp add: fold_depend_target[OF t])
  have b: "untouched w ?s4 (popTarget ?s4)" by (rule untouched_popTarget)
  have c: "untouched w (popTarget ?s4) (cleanupDeps u (popTarget ?s4))"
    by (rule untouched_cleanupDeps[OF n])
  show ?thesis
    unfolding get_finally_def Let_def
    by (rule untouched_trans[OF untouched_trans[OF a b] c])
qed

lemma untouched_get: "u \<noteq> w \<Longrightarrow> untouched w s (snd (get u s))"
proof -
  assume n: "u \<noteq> w"
  let ?s1 = "pushTarget (Some u) s"
  have t1: "target ?s1 = Some u" by (simp add: pushTarget_def)
  have a: "untouched w s ?s1" by (rule untouched_pushTarget)
  have b: "untouched w ?s1 (snd (snd (get_try u ?s1)))"
    by (rule untouched_get_try[OF t1 n])
  have t3: "target (snd (snd (get_try u ?s1))) = Some u"
    by (rule get_try_target[OF t1])
  have c: "untouched w (snd (snd (get_try u ?s1)))
      (get_finally u (fst (snd (get_try u ?s1))) (snd (snd (get_try u ?s1))))"
    by (rule untouched_get_finally[OF t3 n])
  show ?thesis
    unfolding get_state
    by (rule untouched_trans[OF untouched_trans[OF a b] c])
qed

lemma untouched_run: "u \<noteq> w \<Longrightarrow> untouched w s (snd (run u s))"
proof -
  assume n: "u \<noteq> w"
  obtain r s1 where g: "get u s = (r, s1)" by fastforce
  have a: "untouched w s s1" using untouched_get[OF n, of s] g by simp
  show ?thesis
    using a n g
    by (auto simp: run_def Let_def invokeWithErrorHandling_def handleError_def
        untouched_def cb_calls_def split: sum.splits option.splits)
qed

lemma untouched_queueWatcher: "u \<noteq> w \<Longrightarrow> untouched w s (queueWatcher u s)"
proof -
  assume n: "u \<noteq> w"
  have "set (insert_sorted_from i u q) = insert u (set q)" for i q
  proof -
    have "set (take (Suc i) q) \<union> set (drop (Suc i) q) = set q"
      by (metis append_take_drop_id set_append)
    moreover have "set (takeWhile (\<lambda>x. x \<le> u) (drop (Suc i) q)) \<union> set (dropWhile (\<lambda>x. x \<le> u) (drop (Suc i) q))
        = set (drop (Suc i) q)"
      by (metis takeWhile_dropWhile_id set_append)
    ultimately show ?thesis by (auto simp: Let_def)
  qed
  then show ?thesis
    using n by (simp add: untouched_def queueWatcher_def Let_def cb_calls_def del: insert_sorted_from.simps)
qed

lemma untouched_update: "u \<noteq> w \<Longrightarrow> untouched w s (snd (update u s))"
  using untouched_run[of u w s] untouched_queueWatcher[of u w s]
  by (simp add: update_def Let_def) (simp add: untouched_def cb_calls_def)

lemma untouched_notify_loop: "w \<notin> set us \<Longrightarrow> untouched w s (snd (notify_loop us s))"
proof (induction us arbitrary: s)
  case Nil
  show ?case by simp
next
  case (Cons u us)
  obtain r s1 where p: "update u s = (r, s1)" by fastforce
  have a: "untouched w s s1" using untouched_update[of u w s] Cons.prems p by simp
  have b: "untouched w s1 (snd (notify_loop us s1))" using Cons by simp
  show ?case
    using p a untouched_trans[OF a b] by (simp split: option.splits)
qed

lemma untouched_notify: "w \<notin> set (subs s d) \<Longrightarrow> untouched w s (snd (notify d s))"
  by (simp add: notify_def untouched_notify_loop notify_order_def Let_def)


lemma addDep_other [simp]:
  "traverse_touches (addDep u d s) = traverse_touches s"
  "closures (addDep u d s) = closures s"
  "cbLog (addDep u d s) = cbLog s"
  "errLog (addDep u d s) = errLog s"
  "queue (addDep u d s) = queue s"
  "targetStack (addDep u d s) = targetStack s"
  by (simp_all add: addDep_def addSub_def Let_def)

lemma fold_addDep_other [simp]:
  "traverse_touches (fold (addDep u) ds s) = traverse_touches s"
  "closures (fold (addDep u) ds s) = closures s"
  "cbLog (fold (addDep u) ds s) = cbLog s"
  "errLog (fold (addDep u) ds s) = errLog s"
  "queue (fold (addDep u) ds s) = queue s"
  "targetStack (fold (addDep u) ds s) = targetStack s"
  by (induction ds arbitrary: s) simp_all

lemma static_addDep [simp]: "static (watchers (addDep u d s) x) = static (watchers s x)"
  by (simp add: addDep_def addSub_def Let_def static_def)

lemma static_fold_addDep [simp]: "static (watchers (fold (addDep u) ds s) x) = static (watchers s x)"
  by (induction ds arbitrary: s) simp_all

lemma static_fields:
  "static a = static b \<Longrightarrow>
   deep a = deep b \<and> user a = user b \<and> lazy a = lazy b \<and> sync a = sync b \<and> active a = active b \<and>
   dirty a = dirty b \<and> getter a = getter b \<and> cb a = cb b \<and> wvalue a = wvalue b \<and> vm a = vm b"
  unfolding static_def
  by (cases a, cases b) simp

lemma newDepIds_addDep:
  "newDepIds (watchers (addDep u d s) u) = insert d (newDepIds (watchers s u))"
  by (auto simp: addDep_def addSub_def Let_def)

lemma newDepIds_fold_addDep:
  "newDepIds (watchers (fold (addDep u) ds s) u) = newDepIds (watchers s u) \<union> set ds"
  by (induction ds arbitrary: s) (auto simp: newDepIds_addDep)

lemma depIds_cleanupDeps [simp]:
  "depIds (watchers (cleanupDeps w s) w) = newDepIds (watchers s w)"
  "newDepIds (watchers (cleanupDeps w s) w) = {}"
  "deps (watchers (cleanupDeps w s) w) = newDeps (watchers s w)"
  "newDeps (watchers (cleanupDeps w s) w) = []"
  by (simp_all add: cleanupDeps_eq)

lemma get_depIds:
  "depIds (watchers (snd (get w s)) w) = newDepIds (watchers s w) \<union> set (reads_of w s)"
proof -
  let ?s1 = "pushTarget (Some w) s"
  let ?reads = "fst (getter (watchers s w) (closures s))"
  let ?res = "snd (getter (watchers s w) (closures s))"
  let ?v = "case ?res of Inr x \<Rightarrow> x | Inl _ \<Rightarrow> Undefined"
  let ?s2 = "fold (addDep w) ?reads ?s1"
  have t1: "target ?s1 = Some w" by (simp add: pushTarget_def)
  have w1: "watchers ?s1 = watchers s" "closures ?s1 = closures s" "traverse_touches ?s1 = traverse_touches s"
    by (simp_all add: pushTarget_def)
  define s3 where "s3 = snd (snd (get_try w ?s1))"
  have gv: "fst (snd (get_try w ?s1)) = ?v"
    by (cases ?res) (simp_all add: get_try_def Let_def w1)
  have s3: "s3 = ?s2 \<or> (\<exists>e. s3 = handleError e w ?s2)"
    unfolding s3_def
    by (cases ?res) (auto simp: get_try_def Let_def fold_depend_target[OF t1] w1)
  have s3w: "watchers s3 = watchers ?s2" and s3t: "target s3 = Some w"
    and s3r: "traverse_touches s3 = traverse_touches ?s2"
    using s3 t1 by (auto simp: handleError_def)
  have tt: "traverse_touches ?s2 = traverse_touches s"
    by (simp add: w1)
  have dp: "deep (watchers s3 w) = deep (watchers s w)"
    using static_fields[OF static_fold_addDep[of w ?reads ?s1 w]] by (simp add: s3w w1)
  have n3: "newDepIds (watchers s3 w) = newDepIds (watchers s w) \<union> set ?reads"
    by (simp add: s3w newDepIds_fold_addDep w1)
  let ?s4 = "if deep (watchers s3 w) then fold depend (traverse_touches s3 ?v) s3 else s3"
  have n4: "newDepIds (watchers ?s4 w) = newDepIds (watchers s w) \<union> set (reads_of w s)"
    using n3 dp
    by (simp add: fold_depend_target[OF s3t] newDepIds_fold_addDep reads_of_def Let_def s3r tt w1 Un_assoc)
  have "snd (get w s) = cleanupDeps w (popTarget ?s4)"
    by (simp add: get_state gv get_finally_def Let_def s3_def)
  moreover have "watchers (popTarget ?s4) = watchers ?s4"
    by (simp add: popTarget_def Let_def)
  ultimately show ?thesis
    using n4 by simp
qed

lemma get_not_subscribed:
  assumes "wf s" "valid_watcher s w" "newDepIds (watchers s w) = {}" "k \<notin> set (reads_of w s)"
  shows "w \<notin> set (subs (snd (get w s)) k)"
proof
  assume m: "w \<in> set (subs (snd (get w s)) k)"
  have wf': "wf (snd (get w s))" by (rule wf_get[OF assms(1,2)])
  have n: "newDepIds (watchers (snd (get w s)) w) = {}"
    by (simp add: get_state get_finally_def Let_def)
  from wf' m have "k \<in> depIds (watchers (snd (get w s)) w) \<or> k \<in> newDepIds (watchers (snd (get w s)) w)"
    unfolding wf_def by blast
  with n have "k \<in> depIds (watchers (snd (get w s)) w)" by simp
  with assms(3,4) show False by (simp add: get_depIds)
qed

lemma cleanupDeps_removed:
  assumes "distinct (subs s d)" "d \<in> set (deps (watchers s w))" "d \<notin> newDepIds (watchers s w)"
  shows "w \<notin> set (subs (cleanupDeps w s) d)"
proof -
  let ?n = "length (filter (\<lambda>x. x = d \<and> x \<notin> newDepIds (watchers s w)) (rev (deps (watchers s w))))"
  from assms(2,3) have "filter (\<lambda>x. x = d \<and> x \<notin> newDepIds (watchers s w)) (rev (deps (watchers s w))) \<noteq> []"
    by (simp add: filter_empty_conv)
  then have p: "0 < ?n" by simp
  have "w \<notin> set ((remove1 w ^^ ?n) (subs s d))"
    by (rule notin_funpow_remove1[OF assms(1) p])
  then show ?thesis by (simp add: cleanupDeps_eq)
qed

lemma addDep_only_way:
  "w \<in> set (subs (addDep u d s) k) \<Longrightarrow> w \<in> set (subs s k) \<or> (u = w \<and> d = k)"
  by (auto simp: addDep_def addSub_def Let_def split: if_splits)

text \<open>
  Claim C2. In a state that satisfies the invariant, \<open>cleanupDeps\<close> removes the watcher
  from the subscribers of every dep of the previous \<open>deps\<close> whose id is not in the new
  id set, then \<open>deps\<close> is the former \<open>newDeps\<close> and \<open>newDeps\<close> is empty (likewise
  the id sets). If the watcher is between evaluations (\<open>newDepIds\<close> empty) and an
  evaluation does not read the key \<open>k\<close>, then after \<open>get\<close> the watcher is not a
  subscriber of \<open>k\<close>; a later \<open>notify\<close> of \<open>k\<close> does not call its \<open>update\<close>: the
  calls of its callback, its fields and its place in the queue are as before, and it is
  still no subscriber of \<open>k\<close>; only the watcher's own \<open>addDep\<close> of \<open>k\<close> (a read of
  \<open>k\<close>) subscribes it again.
\<close>

theorem C2_cleanup_and_branch_shedding:
  assumes "wf s" and "valid_watcher s w"
  shows "(\<forall>d \<in> set (deps (watchers s w)). d \<notin> newDepIds (watchers s w) \<longrightarrow>
            w \<notin> set (subs (cleanupDeps w s) d)) \<and>
         deps (watchers (cleanupDeps w s) w) = newDeps (watchers s w) \<and>
         newDeps (watchers (cleanupDeps w s) w) = [] \<and>
         depIds (watchers (cleanupDeps w s) w) = newDepIds (watchers s w) \<and>
         newDepIds (watchers (cleanupDeps w s) w) = {} \<and>
         (newDepIds (watchers s w) = {} \<and> k \<notin> set (reads_of w s) \<longrightarrow>
            w \<notin> set (subs (snd (get w s)) k) \<and>
            w \<notin> set (notify_order k (snd (get w s))) \<and>
            cb_calls w (snd (notify k (snd (get w s)))) = cb_calls w (snd (get w s)) \<and>
            watchers (snd (notify k (snd (get w s)))) w = watchers (snd (get w s)) w \<and>
            (w \<in> set (queue (snd (notify k (snd (get w s))))) \<longleftrightarrow> w \<in> set (queue (snd (get w s)))) \<and>
            w \<notin> set (subs (snd (notify k (snd (get w s)))) k) \<and>
            (\<forall>u d. w \<in> set (subs (addDep u d (snd (get w s))) k) \<longrightarrow> u = w \<and> d = k))"
proof -
  have a: "\<forall>d \<in> set (deps (watchers s w)). d \<notin> newDepIds (watchers s w) \<longrightarrow>
            w \<notin> set (subs (cleanupDeps w s) d)"
    using assms(1) cleanupDeps_removed unfolding wf_def by blast
  have b: "w \<notin> set (subs (snd (get w s)) k) \<and>
            w \<notin> set (notify_order k (snd (get w s))) \<and>
            cb_calls w (snd (notify k (snd (get w s)))) = cb_calls w (snd (get w s)) \<and>
            watchers (snd (notify k (snd (get w s)))) w = watchers (snd (get w s)) w \<and>
            (w \<in> set (queue (snd (notify k (snd (get w s))))) \<longleftrightarrow> w \<in> set (queue (snd (get w s)))) \<and>
            w \<notin> set (subs (snd (notify k (snd (get w s)))) k) \<and>
            (\<forall>u d. w \<in> set (subs (addDep u d (snd (get w s))) k) \<longrightarrow> u = w \<and> d = k)"
    if h: "newDepIds (watchers s w) = {}" "k \<notin> set (reads_of w s)"
  proof -
    have n: "w \<notin> set (subs (snd (get w s)) k)"
      by (rule get_not_subscribed[OF assms h])
    have u: "untouched w (snd (get w s)) (snd (notify k (snd (get w s))))"
      by (rule untouched_notify[OF n])
    have o: "w \<notin> set (notify_order k (snd (get w s)))"
      using n by (simp add: notify_order_def Let_def)
    have l: "\<forall>u d. w \<in> set (subs (addDep u d (snd (get w s))) k) \<longrightarrow> u = w \<and> d = k"
      using n addDep_only_way by blast
    show ?thesis
      using n u o l unfolding untouched_def by simp
  qed
  show ?thesis
    using a b by simp
qed


lemma quiet_refl [simp]: "quiet w s s"
  by (simp add: quiet_def)

lemma quiet_trans: "quiet w s s1 \<Longrightarrow> quiet w s1 s2 \<Longrightarrow> quiet w s s2"
  by (simp add: quiet_def)

lemma quiet_static:
  "watcher_uid s' = watcher_uid s \<Longrightarrow> static (watchers s' w) = static (watchers s w) \<Longrightarrow>
   cbLog s' = cbLog s \<Longrightarrow> quiet w s s'"
  using static_fields[of "watchers s' w" "watchers s w"]
  by (simp add: quiet_def cb_calls_def)

lemma quiet_addDep: "quiet w s (addDep u d s)"
  by (rule quiet_static) simp_all

lemma quiet_depend: "quiet w s (depend d s)"
  by (simp add: depend_def quiet_addDep split: option.splits)

lemma quiet_fold_depend: "quiet w s (fold depend ds s)"
proof (induction ds arbitrary: s)
  case Nil
  show ?case by simp
next
  case (Cons d ds)
  show ?case
    using quiet_trans[OF quiet_depend[of w s d] Cons.IH[of "depend d s"]] by simp
qed

lemma quiet_cleanupDeps: "quiet w s (cleanupDeps u s)"
  by (rule quiet_static) (simp_all add: cleanupDeps_eq static_def)

lemma quiet_pushTarget: "quiet w s (pushTarget t s)"
  by (simp add: quiet_def pushTarget_def cb_calls_def)

lemma quiet_popTarget: "quiet w s (popTarget s)"
  by (simp add: quiet_def popTarget_def cb_calls_def Let_def)

lemma quiet_handleError: "quiet w s (handleError e u s)"
  by (simp add: quiet_def handleError_def cb_calls_def)

lemma quiet_get_try: "quiet w s (snd (snd (get_try u s)))"
proof -
  let ?s2 = "fold depend (fst (getter (watchers s u) (closures s))) s"
  have a: "quiet w s ?s2" by (rule quiet_fold_depend)
  have b: "quiet w s (handleError e u ?s2)" for e
    by (rule quiet_trans[OF a quiet_handleError])
  show ?thesis
    using a b by (simp add: get_try_def Let_def split: sum.splits)
qed

lemma quiet_get_finally: "quiet w s (get_finally u v s)"
proof -
  let ?s4 = "if deep (watchers s u) then fold depend (traverse_touches s v) s else s"
  have a: "quiet w s ?s4" by (simp add: quiet_fold_depend)
  show ?thesis
    unfolding get_finally_def Let_def
    by (rule quiet_trans[OF quiet_trans[OF a quiet_popTarget] quiet_cleanupDeps])
qed

lemma quiet_get: "quiet w s (snd (get u s))"
  unfolding get_state
  by (rule quiet_trans[OF quiet_trans[OF quiet_pushTarget quiet_get_try] quiet_get_finally])

lemma quiet_untouched: "untouched w s s' \<Longrightarrow> watcher_uid s \<le> watcher_uid s' \<Longrightarrow> quiet w s s'"
  by (simp add: quiet_def untouched_def)

lemma quiet_run: "\<not> active (watchers s w) \<Longrightarrow> quiet w s (snd (run u s))"
proof (cases "u = w")
  case True
  assume "\<not> active (watchers s w)"
  with True show ?thesis by (simp add: run_def)
next
  case False
  show ?thesis
    by (rule quiet_untouched[OF untouched_run[OF False]]) simp
qed

lemma quiet_queueWatcher: "quiet w s (queueWatcher u s)"
  by (simp add: quiet_def queueWatcher_def Let_def cb_calls_def del: insert_sorted_from.simps)

lemma quiet_update: "\<not> active (watchers s w) \<Longrightarrow> quiet w s (snd (update u s))"
proof -
  assume i: "\<not> active (watchers s w)"
  have "quiet w s (s\<lparr>watchers := (watchers s)(u := (watchers s u)\<lparr>dirty := True\<rparr>)\<rparr>)"
    using i by (cases "u = w") (simp_all add: quiet_def cb_calls_def)
  then show ?thesis
    using quiet_run[OF i, of u] quiet_queueWatcher[of w s u]
    by (simp add: update_def Let_def)
qed

lemma quiet_notify_loop: "\<not> active (watchers s w) \<Longrightarrow> quiet w s (snd (notify_loop us s))"
proof (induction us arbitrary: s)
  case Nil
  show ?case by simp
next
  case (Cons u us)
  obtain r s1 where p: "update u s = (r, s1)" by fastforce
  have a: "quiet w s s1" using quiet_update[OF Cons.prems, of u] p by simp
  then have i: "\<not> active (watchers s1 w)" using Cons.prems by (simp add: quiet_def)
  have b: "quiet w s1 (snd (notify_loop us s1))" by (rule Cons.IH[OF i])
  show ?case
    using p a quiet_trans[OF a b] by (simp split: option.splits)
qed

lemma quiet_notify: "\<not> active (watchers s w) \<Longrightarrow> quiet w s (snd (notify d s))"
  by (simp add: notify_def quiet_notify_loop)

lemma quiet_flush_loop: "\<not> active (watchers s w) \<Longrightarrow> quiet w s (snd (flush_loop us s))"
proof (induction us arbitrary: s)
  case Nil
  show ?case by simp
next
  case (Cons u us)
  let ?s0 = "s\<lparr>flush_index := length (queue s) - Suc (length us)\<rparr>"
  obtain r s1 where p: "run u ?s0 = (r, s1)" by fastforce
  have q0: "quiet w s ?s0" by (simp add: quiet_def cb_calls_def)
  have i0: "\<not> active (watchers ?s0 w)" using Cons.prems by simp
  have a: "quiet w s s1" using quiet_trans[OF q0 quiet_run[OF i0, of u]] p by simp
  then have i: "\<not> active (watchers s1 w)" using Cons.prems by (simp add: quiet_def)
  have b: "quiet w s1 (snd (flush_loop us s1))" by (rule Cons.IH[OF i])
  show ?case
    using p a quiet_trans[OF a b] by (simp split: option.splits)
qed

lemma quiet_flush: "\<not> active (watchers s w) \<Longrightarrow> quiet w s (snd (flushSchedulerQueue s))"
proof -
  assume i: "\<not> active (watchers s w)"
  let ?s1 = "s\<lparr>flushing := True, queue := sort (queue s)\<rparr>"
  obtain r s2 where f: "flush_loop (queue ?s1) ?s1 = (r, s2)" by fastforce
  have q1: "quiet w s ?s1" by (simp add: quiet_def cb_calls_def)
  have i1: "\<not> active (watchers ?s1 w)" using i by simp
  have a: "quiet w s s2" using quiet_trans[OF q1 quiet_flush_loop[OF i1, of "queue ?s1"]] f by simp
  then have "quiet w s (s2\<lparr>queue := [], has := {}, waiting := False, flushing := False, flush_index := 0\<rparr>)"
    by (simp add: quiet_def cb_calls_def)
  with a f show ?thesis
    by (simp add: flushSchedulerQueue_def Let_def split: option.splits)
qed

lemma quiet_evaluate: "quiet w s (snd (evaluate u s))"
proof -
  obtain r s1 where g: "get u s = (r, s1)" by fastforce
  have a: "quiet w s s1" using quiet_get[of w s u] g by simp
  then show ?thesis
    using g by (auto simp: evaluate_def quiet_def cb_calls_def split: sum.splits)
qed

lemma quiet_watcher_depend: "quiet w s (watcher_depend u s)"
  by (simp add: watcher_depend_def quiet_fold_depend)

lemma quiet_teardown: "\<not> active (watchers s w) \<Longrightarrow> quiet w s (teardown u s)"
  by (simp add: teardown_def Let_def fold_removeSub_all quiet_def cb_calls_def)

lemma quiet_new_Watcher:
  "valid_watcher s w \<Longrightarrow> quiet w s (snd (snd (new_Watcher v g c opts s)))"
proof -
  assume vw: "valid_watcher s w"
  let ?w = "watcher_uid s + 1"
  define s1 where "s1 = s\<lparr>vm_watchers := (vm_watchers s)(v := vm_watchers s v @ [?w]),
                 watcher_uid := ?w, watchers := (watchers s)(?w := init_fields v g c opts)\<rparr>"
  have n: "?w \<noteq> w" using vw by (simp add: valid_watcher_def)
  have q1: "quiet w s s1" using n by (simp add: quiet_def s1_def cb_calls_def)
  obtain r s2 where g: "get ?w s1 = (r, s2)" by fastforce
  have q2: "quiet w s s2" using quiet_trans[OF q1 quiet_get[of w s1 ?w]] g by simp
  have e: "new_Watcher v g c opts s =
     (if lazy (init_fields v g c opts) then (None, ?w, s1)
      else (case get ?w s1 of
                 (Inl e, s2) \<Rightarrow> (Some e, ?w, s2)
               | (Inr x, s2) \<Rightarrow>
                   (None, ?w, s2\<lparr>watchers := (watchers s2)(?w := (watchers s2 ?w)\<lparr>wvalue := x\<rparr>)\<rparr>)))"
    unfolding new_Watcher_def Let_def s1_def by (rule refl)
  show ?thesis
    unfolding e using q1 q2 g n
    by (auto simp: quiet_def cb_calls_def split: sum.splits)
qed

lemma quiet_exec_op:
  "valid_watcher s w \<Longrightarrow> \<not> active (watchers s w) \<Longrightarrow> quiet w s (exec_op x s)"
proof (cases x)
  case (PushTarget t)
  then show ?thesis by (cases t) (simp_all add: quiet_pushTarget)
next
  case NewDep
  then show ?thesis by (simp add: new_Dep_def quiet_def cb_calls_def)
next
  case (SetClosures c)
  then show ?thesis by (simp add: quiet_def cb_calls_def)
next
  case (SetAsync b)
  then show ?thesis by (simp add: quiet_def cb_calls_def)
next
  case (SetBeingDestroyed v b)
  then show ?thesis by (simp add: quiet_def cb_calls_def)
qed (simp_all add: quiet_new_Watcher quiet_get quiet_evaluate quiet_watcher_depend quiet_update
    quiet_run quiet_teardown quiet_addDep quiet_cleanupDeps quiet_depend quiet_notify
    quiet_popTarget quiet_queueWatcher quiet_flush)

lemma quiet_exec:
  "valid_watcher s w \<Longrightarrow> \<not> active (watchers s w) \<Longrightarrow> quiet w s (exec ops s)"
proof (induction ops arbitrary: s)
  case Nil
  show ?case by (simp add: exec_def)
next
  case (Cons x xs)
  have a: "quiet w s (exec_op x s)" by (rule quiet_exec_op[OF Cons.prems])
  then have v: "valid_watcher (exec_op x s) w" and i: "\<not> active (watchers (exec_op x s) w)"
    using Cons.prems by (simp_all add: quiet_def valid_watcher_def)
  have b: "quiet w (exec_op x s) (exec xs (exec_op x s))" by (rule Cons.IH[OF v i])
  show ?case
    using quiet_trans[OF a b] by (simp add: exec_def)
qed

lemma teardown_removed:
  assumes "distinct (subs s d)" "d \<in> set (deps (watchers s w))" "active (watchers s w)"
  shows "w \<notin> set (subs (teardown w s) d)"
proof -
  let ?n = "length (filter (\<lambda>x. x = d) (rev (deps (watchers s w))))"
  from assms(2) have "filter (\<lambda>x. x = d) (rev (deps (watchers s w))) \<noteq> []"
    by (simp add: filter_empty_conv)
  then have p: "0 < ?n" by simp
  have "w \<notin> set ((remove1 w ^^ ?n) (subs s d))"
    by (rule notin_funpow_remove1[OF assms(1) p])
  then show ?thesis
    using assms(3) by (simp add: teardown_def Let_def fold_removeSub_all)
qed

text \<open>
  Claim C3. After \<open>teardown\<close> the flag \<open>active\<close> is false; the watcher, if it was
  active, is removed from the subscribers of every dep in its \<open>deps\<close>; \<open>run\<close> is a
  no-op; and along every later run (notifications, updates, flushes of the scheduler,
  evaluations, in any order) the callback is never called again and the watcher stays
  inactive.
\<close>

theorem C3_teardown_completeness:
  assumes "wf s" and "valid_watcher s w"
  shows "\<not> active (watchers (teardown w s) w) \<and>
         (active (watchers s w) \<longrightarrow>
            (\<forall>d \<in> set (deps (watchers s w)). w \<notin> set (subs (teardown w s) d))) \<and>
         run w (teardown w s) = (None, teardown w s) \<and>
         (\<forall>ops. cb_calls w (exec ops (teardown w s)) = cb_calls w (teardown w s) \<and>
                \<not> active (watchers (exec ops (teardown w s)) w))"
proof -
  have i: "\<not> active (watchers (teardown w s) w)"
    by (simp add: teardown_def Let_def fold_removeSub_all)
  have v: "valid_watcher (teardown w s) w"
    using assms(2) by (simp add: teardown_def Let_def fold_removeSub_all valid_watcher_def)
  have r: "\<forall>d \<in> set (deps (watchers s w)). w \<notin> set (subs (teardown w s) d)"
    if "active (watchers s w)"
    using assms(1) teardown_removed that unfolding wf_def by blast
  have q: "quiet w (teardown w s) (exec ops (teardown w s))" for ops
    by (rule quiet_exec[OF v i])
  have n: "run w (teardown w s) = (None, teardown w s)"
    using i by (simp add: run_def)
  show ?thesis
    using i r q n unfolding quiet_def by simp
qed


lemma branch_state_eval:
  "subs branch_state 0 = [1]" "subs branch_state 1 = [1]" "subs branch_state 2 = []"
  "deps (watchers branch_state 1) = [0, 1]" "newDepIds (watchers branch_state 1) = {}"
  "reads_of 1 branch_state = [0, 2]" "watcher_uid branch_state = 1"
  "wvalue (watchers branch_state 1) = Number 1"
  by (simp_all add: branch_state_def core_defs example_defs)

lemma order_state_eval:
  "subs (order_state p) 1 = [2, 1]" "production (order_state p) = p" "async (order_state p) = False"
  by (simp_all add: order_state_def core_defs example_defs)

lemma order_notify_eval:
  "map fst (cbLog (snd (notify 1 (order_state True)))) = [2, 1]"
  "map fst (cbLog (snd (notify 1 (order_state False)))) = [1, 2]"
  by (simp_all add: order_state_def core_defs example_defs)


lemmas branch_state_eval' = branch_state_eval[simplified]
lemmas order_state_eval' = order_state_eval[simplified]
lemmas order_notify_eval' = order_notify_eval[simplified]

lemma wf_branch_state: "wf branch_state"
  unfolding branch_state_def by (rule wf_exec[OF wf_init])

theorem C2_witness:
  "wf branch_state \<and> valid_watcher branch_state 1 \<and>
   deps (watchers branch_state 1) = [0, 1] \<and> subs branch_state 1 = [1] \<and>
   newDepIds (watchers branch_state 1) = {} \<and> reads_of 1 branch_state = [0, 2] \<and>
   subs (cleanupDeps 1 branch_state) 1 = [] \<and>
   deps (watchers (cleanupDeps 1 branch_state) 1) = [] \<and>
   subs (snd (get 1 branch_state)) 1 = [] \<and> subs (snd (get 1 branch_state)) 2 = [1] \<and>
   1 \<notin> set (notify_order 1 (snd (get 1 branch_state))) \<and>
   cb_calls 1 (snd (notify 1 (snd (get 1 branch_state)))) = [] \<and>
   cb_calls 1 (snd (notify 2 (snd (get 1 branch_state)))) = [(1, Number 10, Number 1)]"
proof -
  have v: "valid_watcher branch_state 1"
    by (simp add: valid_watcher_def branch_state_eval')
  have k: "newDepIds (watchers branch_state 1) = {} \<and> 1 \<notin> set (reads_of 1 branch_state)"
    by (simp add: branch_state_eval')
  have d: "1 \<in> set (deps (watchers branch_state 1)) \<and> 1 \<notin> newDepIds (watchers branch_state 1)"
    by (simp add: branch_state_eval')
  note t = C2_cleanup_and_branch_shedding[OF wf_branch_state v, of 1]
  from t d have a: "1 \<notin> set (subs (cleanupDeps 1 branch_state) 1)" by blast
  from t k have b: "1 \<notin> set (subs (snd (get 1 branch_state)) 1) \<and>
      1 \<notin> set (notify_order 1 (snd (get 1 branch_state))) \<and>
      cb_calls 1 (snd (notify 1 (snd (get 1 branch_state)))) = cb_calls 1 (snd (get 1 branch_state))"
    by blast
  have e: "subs (cleanupDeps 1 branch_state) 1 = []"
    "deps (watchers (cleanupDeps 1 branch_state) 1) = []"
    "subs (snd (get 1 branch_state)) 1 = []" "subs (snd (get 1 branch_state)) 2 = [1]"
    "cb_calls 1 (snd (get 1 branch_state)) = []"
    "cb_calls 1 (snd (notify 2 (snd (get 1 branch_state)))) = [(1, Number 10, Number 1)]"
    by (simp_all add: branch_state_def core_defs example_defs)
  show ?thesis
    using wf_branch_state v a b e by (simp add: branch_state_eval')
qed

theorem C3_witness:
  "wf branch_state \<and> valid_watcher branch_state 1 \<and> active (watchers branch_state 1) \<and>
   deps (watchers branch_state 1) = [0, 1] \<and>
   subs branch_state 0 = [1] \<and> subs branch_state 1 = [1] \<and>
   \<not> active (watchers (teardown 1 branch_state) 1) \<and>
   subs (teardown 1 branch_state) 0 = [] \<and> subs (teardown 1 branch_state) 1 = [] \<and>
   cb_calls 1 (exec [Notify 0, Notify 1, Notify 2, Update 1, Run 1, QueueWatcher 1, Flush]
                 (teardown 1 branch_state)) = [] \<and>
   cb_calls 1 (exec [Notify 0] branch_state) = [(1, Number 10, Number 1)]"
proof -
  have v: "valid_watcher branch_state 1"
    by (simp add: valid_watcher_def branch_state_eval')
  note t = C3_teardown_completeness[OF wf_branch_state v]
  have e: "active (watchers branch_state 1)"
    "subs (teardown 1 branch_state) 0 = []" "subs (teardown 1 branch_state) 1 = []"
    "cb_calls 1 (teardown 1 branch_state) = []"
    "cb_calls 1 (exec [Notify 0] branch_state) = [(1, Number 10, Number 1)]"
    by (simp_all add: branch_state_def core_defs example_defs)
  from t have "cb_calls 1 (exec [Notify 0, Notify 1, Notify 2, Update 1, Run 1, QueueWatcher 1, Flush]
                 (teardown 1 branch_state)) = cb_calls 1 (teardown 1 branch_state)"
    by blast
  moreover from t have "\<not> active (watchers (teardown 1 branch_state) 1)" by blast
  ultimately show ?thesis
    using wf_branch_state v e by (simp add: branch_state_eval')
qed



lemma errLog_fold_depend [simp]: "errLog (fold depend ds s) = errLog s"
  by (induction ds arbitrary: s) (simp_all add: depend_def split: option.splits)

lemma errLog_get_finally [simp]: "errLog (get_finally w v s) = errLog s"
  by (simp add: get_finally_def Let_def cleanupDeps_eq popTarget_def)


text \<open>
  Claim C9, amended. \<open>notify\<close> calls \<open>update()\<close> on the subscribers in the order
  \<open>notify_order\<close>. When the build is not a production build and \<open>config.async\<close> is
  false, that is the snapshot sorted by id ascending (a sorted permutation of \<open>subs\<close>);
  in a production build, or when \<open>config.async\<close> is true, it is the snapshot in
  subscription order.
\<close>

theorem C9_notify_order:
  "(\<not> production s \<and> \<not> async s \<longrightarrow>
      notify_order d s = sort (subs s d) \<and> sorted (notify_order d s) \<and>
      mset (notify_order d s) = mset (subs s d)) \<and>
   (production s \<or> async s \<longrightarrow> notify_order d s = subs s d) \<and>
   notify d s = notify_loop (notify_order d s) s"
  by (simp add: notify_order_def notify_def Let_def)

theorem C9_witness:
  "\<not> production (order_state False) \<and> \<not> async (order_state False) \<and>
   subs (order_state False) 1 = [2, 1] \<and>
   notify_order 1 (order_state False) = [1, 2] \<and>
   sorted (notify_order 1 (order_state False)) \<and>
   map fst (cbLog (snd (notify 1 (order_state False)))) = [1, 2] \<and>
   production (order_state True) \<and> notify_order 1 (order_state True) = subs (order_state True) 1"
proof -
  have a: "\<not> production (order_state False) \<and> \<not> async (order_state False)"
    "production (order_state True)"
    by (simp_all add: order_state_eval')
  from C9_notify_order[of "order_state False" 1] a
  have b: "notify_order 1 (order_state False) = sort (subs (order_state False) 1) \<and>
      sorted (notify_order 1 (order_state False))"
    by blast
  from C9_notify_order[of "order_state True" 1] a
  have c: "notify_order 1 (order_state True) = subs (order_state True) 1"
    by blast
  show ?thesis
    using a b c by (simp add: order_state_eval' order_notify_eval')
qed

text \<open>
  Claim C9 as stated fails: in a production build with \<open>config.async\<close> false, with
  watcher 2 subscribed to dep 1 before watcher 1, \<open>notify\<close> updates watcher 2 first.
\<close>

theorem C9_counterexample:
  "\<not> async (order_state True) \<and> subs (order_state True) 1 = [2, 1] \<and>
   notify_order 1 (order_state True) = [2, 1] \<and>
   \<not> sorted (notify_order 1 (order_state True)) \<and>
   map fst (cbLog (snd (notify 1 (order_state True)))) = [2, 1]"
  by (simp add: order_state_eval' order_notify_eval' notify_order_def Let_def)

section \<open>observe, defineReactive and set\<close>

lemma then_do_simps [simp]:
  "then_do None f = None"
  "then_do (Some (Inl e, s)) f = Some (Inl e, s)"
  "then_do (Some (Inr x, s)) f = f x s"
  by (simp_all add: then_do_def)

text \<open>
  Claim C10. When the existing descriptor of the property is not configurable,
  \<open>defineReactive\<close> returns at once: the only change of the state is the \<open>Dep\<close>
  created before the test (the counter \<open>uid\<close> advances and the new dep has no
  subscribers); the heap, and with it the object and its property, and the closures are as
  before, so no accessor is installed and nothing refers to the new dep.
\<close>

theorem C10_non_configurable:
  "own_property (heap s ! r) k = Some p \<Longrightarrow> \<not> configurable p \<Longrightarrow>
   defineReactive obs r k args s =
     Some (Inr (), s\<lparr>dep_uid := dep_uid s + 1, subs := (subs s)(dep_uid s := [])\<rparr>) \<and>
   heap (s\<lparr>dep_uid := dep_uid s + 1, subs := (subs s)(dep_uid s := [])\<rparr>) = heap s \<and>
   closures (s\<lparr>dep_uid := dep_uid s + 1, subs := (subs s)(dep_uid s := [])\<rparr>) = closures s"
  by (simp add: defineReactive_def new_Dep_def Let_def)

theorem C10_witness:
  "own_property (heap (init_state False True [frozen_object]) ! 0) (Name ''a'') =
     Some (DataProperty (Number 1) False True False) \<and>
   \<not> configurable (DataProperty (Number 1) False True False) \<and>
   defineReactive (observe 3) 0 (Name ''a'') None (init_state False True [frozen_object]) =
     Some (Inr (), (init_state False True [frozen_object])\<lparr>dep_uid := 1, subs := (\<lambda>_. [])\<rparr>) \<and>
   heap ((init_state False True [frozen_object])\<lparr>dep_uid := 1, subs := (\<lambda>_. [])\<rparr>) = [frozen_object]"
proof -
  have p: "own_property (heap (init_state False True [frozen_object]) ! 0) (Name ''a'') =
     Some (DataProperty (Number 1) False True False)"
    by (simp add: init_state_def frozen_object_def own_property_def)
  have c: "\<not> configurable (DataProperty (Number 1) False True False)" by simp
  have e: "(init_state False True [frozen_object])\<lparr>dep_uid := dep_uid (init_state False True [frozen_object]) + 1,
       subs := (subs (init_state False True [frozen_object]))(dep_uid (init_state False True [frozen_object]) := [])\<rparr>
     = (init_state False True [frozen_object])\<lparr>dep_uid := 1, subs := (\<lambda>_. [])\<rparr>"
    by (simp add: init_state_def fun_eq_iff)
  show ?thesis
    using C10_non_configurable[OF p c, of "observe 3" None] p c e
    by (simp add: init_state_def)
qed


lemma observe_unfold: "observe n = observe_body (case n of 0 \<Rightarrow> (\<lambda>_ _ _. None) | Suc m \<Rightarrow> observe m)"
  by (cases n) simp_all




section \<open>observe finishes when its depth is the number of objects without observer\<close>

lemma rest_fields:
  assumes "rest s' = rest s"
  shows "production s' = production s" "async s' = async s" "target s' = target s"
    "targetStack s' = targetStack s" "watcher_uid s' = watcher_uid s" "watchers s' = watchers s"
    "vm_watchers s' = vm_watchers s" "vm_isBeingDestroyed s' = vm_isBeingDestroyed s"
    "queue s' = queue s" "has s' = has s" "waiting s' = waiting s" "flushing s' = flushing s"
    "flush_index s' = flush_index s" "shouldObserve s' = shouldObserve s"
    "serverRendering s' = serverRendering s" "cells s' = cells s"
    "traverse_touches s' = traverse_touches s" "cbLog s' = cbLog s" "errLog s' = errLog s"
    "warnLog s' = warnLog s"
  using assms by (cases s; cases s'; simp add: rest_def)+

lemma rest_upd [simp]:
  "rest (s\<lparr>heap := h\<rparr>) = rest s" "rest (s\<lparr>dep_uid := u\<rparr>) = rest s" "rest (s\<lparr>subs := sb\<rparr>) = rest s"
  "rest (s\<lparr>observers := os\<rparr>) = rest s" "rest (s\<lparr>closures := c\<rparr>) = rest s"
  by (simp_all add: rest_def)

lemma same_shape_refl [simp]: "same_shape x x"
  by (simp add: same_shape_def)

lemma same_shape_trans: "same_shape x y \<Longrightarrow> same_shape y z \<Longrightarrow> same_shape x z"
  by (auto simp: same_shape_def)

lemma extI:
  assumes "rest s' = rest s" "dep_uid s \<le> dep_uid s'"
    "\<And>d. subs s' d = (if dep_uid s \<le> d \<and> d < dep_uid s' then [] else subs s d)"
    "\<And>d. d < dep_uid s \<Longrightarrow> closures s' d = closures s d"
    "length (heap s') = length (heap s)"
    "\<And>x. x < length (heap s) \<Longrightarrow> same_shape (heap s ! x) (heap s' ! x)"
    "\<And>x. x < length (heap s) \<Longrightarrow> ob (heap s ! x) \<noteq> None \<Longrightarrow> x \<notin> X \<Longrightarrow> heap s' ! x = heap s ! x"
  shows "ext X s s'"
  unfolding ext_def using assms by simp

lemma extD:
  assumes "ext X s s'"
  shows "rest s' = rest s" "dep_uid s \<le> dep_uid s'"
    "\<And>d. subs s' d = (if dep_uid s \<le> d \<and> d < dep_uid s' then [] else subs s d)"
    "\<And>d. d < dep_uid s \<Longrightarrow> closures s' d = closures s d"
    "length (heap s') = length (heap s)"
    "\<And>x. x < length (heap s) \<Longrightarrow> same_shape (heap s ! x) (heap s' ! x)"
    "\<And>x. x < length (heap s) \<Longrightarrow> ob (heap s ! x) \<noteq> None \<Longrightarrow> x \<notin> X \<Longrightarrow> heap s' ! x = heap s ! x"
  using assms unfolding ext_def by simp_all

lemma ext_refl [simp]: "ext X s s"
  by (rule extI) auto

lemma ext_mono:
  assumes "ext X s s'" "X \<subseteq> Y"
  shows "ext Y s s'"
proof (rule extI)
  show "heap s' ! x = heap s ! x"
    if "x < length (heap s)" "ob (heap s ! x) \<noteq> None" "x \<notin> Y" for x
  proof -
    have "x \<notin> X" using that(3) assms(2) by blast
    then show ?thesis using extD(7)[OF assms(1) that(1,2)] by simp
  qed
qed (rule extD[OF assms(1)]; assumption?)+

lemma ext_trans:
  assumes "ext X s s1" "ext X s1 s2"
  shows "ext X s s2"
proof (rule extI)
  show "rest s2 = rest s" using extD(1)[OF assms(1)] extD(1)[OF assms(2)] by simp
  show "dep_uid s \<le> dep_uid s2" using extD(2)[OF assms(1)] extD(2)[OF assms(2)] by simp
  show "subs s2 d = (if dep_uid s \<le> d \<and> d < dep_uid s2 then [] else subs s d)" for d
    using extD(3)[OF assms(1), of d] extD(3)[OF assms(2), of d]
      extD(2)[OF assms(1)] extD(2)[OF assms(2)] by auto
  show "closures s2 d = closures s d" if "d < dep_uid s" for d
  proof -
    have "d < dep_uid s1" using that extD(2)[OF assms(1)] by simp
    then show ?thesis using extD(4)[OF assms(1) that] extD(4)[OF assms(2)] by simp
  qed
  show "length (heap s2) = length (heap s)"
    using extD(5)[OF assms(1)] extD(5)[OF assms(2)] by simp
  show "same_shape (heap s ! x) (heap s2 ! x)" if "x < length (heap s)" for x
  proof -
    have l: "x < length (heap s1)" using that extD(5)[OF assms(1)] by simp
    show ?thesis
      by (rule same_shape_trans[OF extD(6)[OF assms(1) that] extD(6)[OF assms(2) l]])
  qed
  show "heap s2 ! x = heap s ! x"
    if "x < length (heap s)" "ob (heap s ! x) \<noteq> None" "x \<notin> X" for x
  proof -
    have l: "x < length (heap s1)" using that extD(5)[OF assms(1)] by simp
    have e: "heap s1 ! x = heap s ! x" by (rule extD(7)[OF assms(1) that])
    then have "ob (heap s1 ! x) \<noteq> None" using that by simp
    then have "heap s2 ! x = heap s1 ! x" using extD(7)[OF assms(2) l] that by simp
    with e show ?thesis by simp
  qed
qed

lemma ext_drop:
  assumes "ext X s s'" "\<forall>x \<in> X. ob (heap s ! x) = None"
  shows "ext {} s s'"
proof (rule extI)
  show "heap s' ! x = heap s ! x"
    if "x < length (heap s)" "ob (heap s ! x) \<noteq> None" "x \<notin> {}" for x
  proof -
    have "x \<notin> X" using that(2) assms(2) by auto
    then show ?thesis using extD(7)[OF assms(1) that(1,2)] by simp
  qed
qed (rule extD[OF assms(1)]; assumption?)+


lemma length_filter_update_same:
  "P y = P (xs ! r) \<Longrightarrow> length (filter P (xs[r := y])) = length (filter P xs)"
proof (induction xs arbitrary: r)
  case Nil
  show ?case by simp
next
  case (Cons a xs)
  then show ?case by (cases r) auto
qed

lemma length_filter_update_less:
  "r < length xs \<Longrightarrow> P (xs ! r) \<Longrightarrow> \<not> P y \<Longrightarrow>
   Suc (length (filter P (xs[r := y]))) = length (filter P xs)"
proof (induction xs arbitrary: r)
  case Nil
  then show ?case by simp
next
  case (Cons a xs)
  then show ?case by (cases r) auto
qed

lemma heap_update_obj [simp]: "heap (update_obj r f s) = (heap s)[r := f (heap s ! r)]"
  by (simp add: update_obj_def)

lemma update_obj_other [simp]:
  "dep_uid (update_obj r f s) = dep_uid s" "subs (update_obj r f s) = subs s"
  "closures (update_obj r f s) = closures s" "observers (update_obj r f s) = observers s"
  "rest (update_obj r f s) = rest s"
  by (simp_all add: update_obj_def)

lemma new_Dep_simps [simp]:
  "fst (new_Dep s) = dep_uid s" "heap (snd (new_Dep s)) = heap s"
  "dep_uid (snd (new_Dep s)) = Suc (dep_uid s)" "closures (snd (new_Dep s)) = closures s"
  "observers (snd (new_Dep s)) = observers s" "rest (snd (new_Dep s)) = rest s"
  "subs (snd (new_Dep s)) = (subs s)(dep_uid s := [])"
  by (simp_all add: new_Dep_def)

lemma tidy_heap: "heap s' = heap s \<Longrightarrow> tidy s' = tidy s"
  by (simp add: tidy_def)

lemma unobserved_heap: "heap s' = heap s \<Longrightarrow> unobserved s' = unobserved s"
  by (simp add: unobserved_def)

lemma ext_new_Dep: "ext X s (snd (new_Dep s))"
  by (rule extI) auto

lemma map_fst_define_prop:
  "k \<in> fst ` set xs \<Longrightarrow> map fst (define_prop k p xs) = map fst xs"
  by (induction xs) auto

lemma map_of_define_prop_other:
  "k' \<noteq> k \<Longrightarrow> map_of (define_prop k p xs) k' = map_of xs k'"
  by (induction xs) auto

lemma map_of_define_prop_same: "map_of (define_prop k p xs) k = Some p"
  by (induction xs) auto

lemma observer_of_ext:
  assumes "ext X s s'" "observer_of s v = Some b"
  shows "observer_of s' v = Some b"
proof -
  from assms(2) obtain r where v: "v = Object r" and l: "r < length (heap s)"
    and c: "cls (heap s ! r) \<noteq> VNodeObject" and o: "ob (heap s ! r) = Some b"
    by (auto simp: observer_of_def lookup_def split: jsval.splits if_splits)
  have "same_shape (heap s ! r) (heap s' ! r)" by (rule extD(6)[OF assms(1) l])
  then have "cls (heap s' ! r) \<noteq> VNodeObject" "ob (heap s' ! r) = Some b"
    using c o by (simp_all add: same_shape_def)
  then show ?thesis
    using v l extD(5)[OF assms(1)] by (simp add: observer_of_def lookup_def)
qed

lemma observable_ext:
  assumes "ext X s s'" "observable s v"
  shows "observable s' v"
proof -
  from assms(2) obtain r where v: "v = Object r" and l: "r < length (heap s)"
    by (auto simp: observable_def lookup_def split: jsval.splits if_splits)
  have sh: "same_shape (heap s ! r) (heap s' ! r)" by (rule extD(6)[OF assms(1) l])
  have f: "shouldObserve s' = shouldObserve s" "serverRendering s' = serverRendering s"
    using rest_fields[OF extD(1)[OF assms(1)]] by simp_all
  show ?thesis
    using assms(2) v l extD(5)[OF assms(1)] sh f
    by (auto simp: observable_def lookup_def same_shape_def)
qed

lemma sufficientD:
  assumes "sufficient m obs" "tidy s" "unobserved s < m"
  shows "\<exists>res s'. obs v a s = Some (Inr res, s') \<and> tidy s' \<and> unobserved s' \<le> unobserved s \<and>
           ext {} s s' \<and> res = observer_of s' v \<and> (observable s v \<longleftrightarrow> res \<noteq> None)"
proof -
  note a = assms(1)[unfolded sufficient_def, THEN spec, THEN spec, THEN spec, THEN mp]
  show ?thesis
    by (rule a) (simp add: assms(2,3))
qed

lemma defineReactive_walk_step:
  assumes suf: "sufficient m obs" and t: "tidy s" and u: "unobserved s < m"
    and r: "r < length (heap s)" and o: "ob (heap s ! r) \<noteq> None"
    and c: "cls (heap s ! r) \<noteq> ArrayObject"
    and p: "map_of (props (heap s ! r)) k = Some pr" and nr: "\<not> is_reactive (Some pr)"
  shows "\<exists>s'. defineReactive obs r k None s = Some (Inr (), s') \<and> tidy s' \<and>
           unobserved s' \<le> unobserved s \<and> ext {r} s s' \<and>
           map fst (props (heap s' ! r)) = map fst (props (heap s ! r)) \<and>
           (\<forall>k'. k' \<noteq> k \<longrightarrow> map_of (props (heap s' ! r)) k' = map_of (props (heap s ! r)) k')"
proof -
  let ?s0 = "snd (new_Dep s)"
  have own: "own_property (heap ?s0 ! r) k = Some pr"
    using c p by (simp add: own_property_def)
  have t0: "tidy ?s0" using t tidy_heap[of ?s0 s] by simp
  have u0: "unobserved ?s0 = unobserved s" by (rule unobserved_heap) simp
  have e0: "ext {r} s ?s0" by (rule ext_new_Dep)
  show ?thesis
  proof (cases "configurable pr")
    case False
    then have "defineReactive obs r k None s = Some (Inr (), ?s0)"
      using own by (simp add: defineReactive_def Let_def)
    then show ?thesis using t0 u0 e0 by simp
  next
    case True
    let ?val0 = "initial_value ?s0 (Some pr) None"
    from sufficientD[OF suf t0, of ?val0 False] u u0
    obtain child s1 where ob1: "obs ?val0 False ?s0 = Some (Inr child, s1)" and t1: "tidy s1"
      and u1: "unobserved s1 \<le> unobserved ?s0" and e1: "ext {} ?s0 s1"
      by auto
    define s' where "s' = update_obj r
        (\<lambda>obj. obj\<lparr>props := define_prop k (ReactiveProperty (dep_uid s)) (props obj)\<rparr>)
        (s1\<lparr>closures := (closures s1)
           (dep_uid s := \<lparr>val = ?val0, childOb = child, prop_getter = property_get (Some pr),
               prop_setter = property_set (Some pr), shallow = False, customSetter = False\<rparr>)\<rparr>)"
    have d: "defineReactive obs r k None s = Some (Inr (), s')"
      using own True nr c ob1 by (simp add: defineReactive_def Let_def s'_def)
    have e01: "ext {} s s1" by (rule ext_trans[OF ext_new_Dep e1])
    have len: "length (heap s1) = length (heap s)" using extD(5)[OF e01] by simp
    have hr: "heap s1 ! r = heap s ! r" using extD(7)[OF e01 r o] by simp
    have len': "length (heap s') = length (heap s)" using len by (simp add: s'_def)
    have hr': "heap s' ! r =
        (heap s ! r)\<lparr>props := define_prop k (ReactiveProperty (dep_uid s)) (props (heap s ! r))\<rparr>"
      using r len hr by (simp add: s'_def)
    have hx: "x \<noteq> r \<Longrightarrow> heap s' ! x = heap s1 ! x" for x
      by (simp add: s'_def)
    have oth: "rest s' = rest s1" "dep_uid s' = dep_uid s1" "subs s' = subs s1"
      "\<And>d. d \<noteq> dep_uid s \<Longrightarrow> closures s' d = closures s1 d"
      by (simp_all add: s'_def)
    have kin: "k \<in> fst ` set (props (heap s ! r))"
      using p by (metis map_of_eq_None_iff option.distinct(1))
    have pk: "map fst (props (heap s' ! r)) = map fst (props (heap s ! r))"
      using kin by (simp add: hr' map_fst_define_prop)
    have po: "\<forall>k'. k' \<noteq> k \<longrightarrow> map_of (props (heap s' ! r)) k' = map_of (props (heap s ! r)) k'"
      by (simp add: hr' map_of_define_prop_other)
    have t': "tidy s'"
      unfolding tidy_def
    proof (intro allI impI)
      fix x assume x: "x < length (heap s')"
      show "distinct (map fst (props (heap s' ! x))) \<and>
        (ob (heap s' ! x) = None \<longrightarrow> (\<forall>kp\<in>set (props (heap s' ! x)). \<not> is_reactive (Some (snd kp))))"
      proof (cases "x = r")
        case True
        have "distinct (map fst (props (heap s ! r)))" using t r unfolding tidy_def by blast
        then have 1: "distinct (map fst (props (heap s' ! r)))" using pk by simp
        have 2: "ob (heap s' ! r) \<noteq> None" using o by (simp add: hr')
        show ?thesis unfolding True using 1 2 by blast
      next
        case False
        have "x < length (heap s1)" using x len len' by simp
        then show ?thesis using t1 hx[OF False] unfolding tidy_def by simp
      qed
    qed
    have "ob (heap s' ! r) = ob (heap s1 ! r)" by (simp add: hr' hr)
    then have u': "unobserved s' = unobserved s1"
      unfolding unobserved_def s'_def by (simp add: length_filter_update_same)
    have e': "ext {r} s s'"
    proof (rule extI)
      show "rest s' = rest s" using extD(1)[OF e01] oth by simp
      show "dep_uid s \<le> dep_uid s'" using extD(2)[OF e01] oth by simp
      show "subs s' d = (if dep_uid s \<le> d \<and> d < dep_uid s' then [] else subs s d)" for d
        using extD(3)[OF e01, of d] oth by simp
      show "closures s' d = closures s d" if "d < dep_uid s" for d
        using extD(4)[OF e01 that] that oth(4)[of d] by simp
      show "length (heap s') = length (heap s)" by (rule len')
      show "same_shape (heap s ! x) (heap s' ! x)" if "x < length (heap s)" for x
      proof (cases "x = r")
        case True
        show ?thesis unfolding True by (simp add: hr' same_shape_def)
      next
        case False
        then show ?thesis using extD(6)[OF e01 that] hx by simp
      qed
      show "heap s' ! x = heap s ! x"
        if "x < length (heap s)" "ob (heap s ! x) \<noteq> None" "x \<notin> {r}" for x
        using extD(7)[OF e01 that(1,2)] that(3) hx by simp
    qed
    show ?thesis
      using d t' u' u1 u0 e' pk po by auto
  qed
qed


lemma walk_keys_sufficient:
  assumes suf: "sufficient m obs"
  shows "tidy s \<Longrightarrow> unobserved s < m \<Longrightarrow> r < length (heap s) \<Longrightarrow> ob (heap s ! r) \<noteq> None \<Longrightarrow>
    cls (heap s ! r) \<noteq> ArrayObject \<Longrightarrow> distinct ks \<Longrightarrow>
    \<forall>k \<in> set ks. \<exists>pr. map_of (props (heap s ! r)) k = Some pr \<and> \<not> is_reactive (Some pr) \<Longrightarrow>
    \<exists>s'. walk_keys obs r ks s = Some (Inr (), s') \<and> tidy s' \<and> unobserved s' \<le> unobserved s \<and>
         ext {r} s s'"
proof (induction ks arbitrary: s)
  case Nil
  then show ?case by simp
next
  case (Cons k ks)
  from Cons.prems(7) obtain pr where p: "map_of (props (heap s ! r)) k = Some pr"
    and nr: "\<not> is_reactive (Some pr)" by auto
  from defineReactive_walk_step[OF suf Cons.prems(1,2,3,4,5) p nr]
  obtain s1 where d: "defineReactive obs r k None s = Some (Inr (), s1)" and t1: "tidy s1"
    and u1: "unobserved s1 \<le> unobserved s" and e1: "ext {r} s s1"
    and po: "\<forall>k'. k' \<noteq> k \<longrightarrow> map_of (props (heap s1 ! r)) k' = map_of (props (heap s ! r)) k'"
    by blast
  have r1: "r < length (heap s1)" using extD(5)[OF e1] Cons.prems(3) by simp
  have sh: "same_shape (heap s ! r) (heap s1 ! r)" by (rule extD(6)[OF e1 Cons.prems(3)])
  have o1: "ob (heap s1 ! r) \<noteq> None" using sh Cons.prems(4) by (simp add: same_shape_def)
  have c1: "cls (heap s1 ! r) \<noteq> ArrayObject" using sh Cons.prems(5) by (simp add: same_shape_def)
  have um: "unobserved s1 < m" using u1 Cons.prems(2) by simp
  have dk: "distinct ks" and nk: "k \<notin> set ks" using Cons.prems(6) by simp_all
  have pk: "\<forall>k' \<in> set ks. \<exists>pr. map_of (props (heap s1 ! r)) k' = Some pr \<and> \<not> is_reactive (Some pr)"
  proof
    fix k' assume k': "k' \<in> set ks"
    then have "k' \<noteq> k" using nk by auto
    then have "map_of (props (heap s1 ! r)) k' = map_of (props (heap s ! r)) k'" using po by simp
    then show "\<exists>pr. map_of (props (heap s1 ! r)) k' = Some pr \<and> \<not> is_reactive (Some pr)"
      using Cons.prems(7) k' by simp
  qed
  from Cons.IH[OF t1 um r1 o1 c1 dk pk]
  obtain s' where w: "walk_keys obs r ks s1 = Some (Inr (), s')" and t': "tidy s'"
    and u': "unobserved s' \<le> unobserved s1" and e': "ext {r} s1 s'"
    by blast
  have "walk_keys obs r (k # ks) s = Some (Inr (), s')" using d w by simp
  moreover have "ext {r} s s'" by (rule ext_trans[OF e1 e'])
  ultimately show ?case using t' u' u1 by auto
qed

lemma observeArray_sufficient:
  assumes suf: "sufficient m obs"
  shows "tidy s \<Longrightarrow> unobserved s < m \<Longrightarrow>
    \<exists>s'. observeArray obs items s = Some (Inr (), s') \<and> tidy s' \<and> unobserved s' \<le> unobserved s \<and>
         ext {} s s' \<and> (\<forall>v \<in> set items. observable s v \<longrightarrow> observer_of s' v \<noteq> None)"
proof (induction items arbitrary: s)
  case Nil
  then show ?case by simp
next
  case (Cons v items)
  from sufficientD[OF suf Cons.prems, of v False]
  obtain res s1 where o: "obs v False s = Some (Inr res, s1)" and t1: "tidy s1"
    and u1: "unobserved s1 \<le> unobserved s" and e1: "ext {} s s1"
    and r1: "res = observer_of s1 v" and c1: "observable s v \<longleftrightarrow> res \<noteq> None"
    by blast
  have um: "unobserved s1 < m" using u1 Cons.prems(2) by simp
  from Cons.IH[OF t1 um]
  obtain s' where a: "observeArray obs items s1 = Some (Inr (), s')" and t': "tidy s'"
    and u': "unobserved s' \<le> unobserved s1" and e': "ext {} s1 s'"
    and i': "\<forall>x \<in> set items. observable s1 x \<longrightarrow> observer_of s' x \<noteq> None"
    by blast
  have 1: "observeArray obs (v # items) s = Some (Inr (), s')" using o a by simp
  have 2: "ext {} s s'" by (rule ext_trans[OF e1 e'])
  have 3: "observer_of s' x \<noteq> None" if h: "x \<in> set (v # items)" "observable s x" for x
  proof (cases "x = v")
    case True
    then obtain b where "observer_of s1 v = Some b" using h(2) c1 r1 by auto
    then show ?thesis using observer_of_ext[OF e'] True by simp
  next
    case False
    then have "x \<in> set items" using h(1) by simp
    moreover have "observable s1 x" by (rule observable_ext[OF e1 h(2)])
    ultimately show ?thesis using i' by blast
  qed
  show ?case using 1 2 3 t' u' u1 by auto
qed


lemma set_index_keys: "set (index_keys ks) = {n. Index n \<in> set ks}"
  by (induction ks rule: index_keys.induct) auto

lemma set_name_keys: "k \<in> set (name_keys ks) \<longleftrightarrow> k \<in> set ks \<and> \<not> isValidArrayIndex k"
proof (induction ks)
  case Nil
  show ?case by simp
next
  case (Cons x xs)
  then show ?case by (cases x; cases k) auto
qed

lemma distinct_index_keys: "distinct ks \<Longrightarrow> distinct (index_keys ks)"
  by (induction ks rule: index_keys.induct) (auto simp: set_index_keys)

lemma distinct_name_keys: "distinct ks \<Longrightarrow> distinct (name_keys ks)"
proof (induction ks)
  case Nil
  show ?case by simp
next
  case (Cons x xs)
  then show ?case by (cases x) (simp_all add: set_name_keys)
qed

lemma set_Object_keys: "set (Object_keys obj) \<subseteq> fst ` set (props obj)"
proof
  fix k assume "k \<in> set (Object_keys obj)"
  then have "k \<in> set (map fst (filter (\<lambda>kp. enumerable (snd kp)) (props obj)))"
    by (auto simp: Object_keys_def Let_def set_index_keys set_name_keys)
  then show "k \<in> fst ` set (props obj)" by auto
qed

lemma distinct_Object_keys:
  assumes "distinct (map fst (props obj))"
  shows "distinct (Object_keys obj)"
proof -
  let ?ks = "map fst (filter (\<lambda>kp. enumerable (snd kp)) (props obj))"
  have d: "distinct ?ks" using assms by (rule distinct_map_filter)
  have 1: "distinct (map Index (sort (index_keys ?ks)))"
    using distinct_index_keys[OF d] by (simp add: distinct_map inj_on_def)
  have 2: "distinct (name_keys ?ks)" by (rule distinct_name_keys[OF d])
  have 3: "set (map Index (sort (index_keys ?ks))) \<inter> set (name_keys ?ks) = {}"
    by (auto simp: set_name_keys)
  show ?thesis
    unfolding Object_keys_def Let_def using 1 2 3 by simp
qed

lemma new_Observer_sufficient:
  assumes suf: "sufficient m obs" and t: "tidy s" and u: "unobserved s < Suc m"
    and r: "r < length (heap s)" and o: "ob (heap s ! r) = None"
  shows "\<exists>s'. new_Observer obs r s = Some (Inr (dep_uid s), s') \<and> tidy s' \<and>
           unobserved s' \<le> unobserved s \<and> ext {} s s' \<and> ob (heap s' ! r) = Some (dep_uid s)"
proof -
  define s3 where "s3 = mark_observed r s"
  have h3: "heap s3 = (heap s)[r := (heap s ! r)\<lparr>ob := Some (dep_uid s)\<rparr>]"
    by (simp add: s3_def mark_observed_def Let_def)
  have hr3: "heap s3 ! r = (heap s ! r)\<lparr>ob := Some (dep_uid s)\<rparr>" using r by (simp add: h3)
  have hx3: "x \<noteq> r \<Longrightarrow> heap s3 ! x = heap s ! x" for x by (simp add: h3)
  have oth3: "rest s3 = rest s" "dep_uid s3 = Suc (dep_uid s)" "subs s3 = (subs s)(dep_uid s := [])"
    "closures s3 = closures s" "length (heap s3) = length (heap s)"
    by (simp_all add: s3_def mark_observed_def Let_def)
  have t3: "tidy s3"
    unfolding tidy_def
  proof (intro allI impI)
    fix x assume x: "x < length (heap s3)"
    show "distinct (map fst (props (heap s3 ! x))) \<and>
        (ob (heap s3 ! x) = None \<longrightarrow> (\<forall>kp\<in>set (props (heap s3 ! x)). \<not> is_reactive (Some (snd kp))))"
    proof (cases "x = r")
      case True
      have "distinct (map fst (props (heap s ! r)))" using t r unfolding tidy_def by blast
      then show ?thesis unfolding True by (simp add: hr3)
    next
      case False
      have "x < length (heap s)" using x oth3 by simp
      then show ?thesis using t hx3[OF False] unfolding tidy_def by simp
    qed
  qed
  have u3: "Suc (unobserved s3) = unobserved s"
    unfolding unobserved_def h3 using r o by (simp add: length_filter_update_less)
  have e3: "ext X s s3" for X
  proof (rule extI)
    show "same_shape (heap s ! x) (heap s3 ! x)" if "x < length (heap s)" for x
    proof (cases "x = r")
      case True
      show ?thesis unfolding True using o by (simp add: hr3 same_shape_def)
    next
      case False
      then show ?thesis using hx3 by simp
    qed
    show "heap s3 ! x = heap s ! x"
      if "x < length (heap s)" "ob (heap s ! x) \<noteq> None" "x \<notin> X" for x
    proof -
      have "x \<noteq> r" using that(2) o by auto
      then show ?thesis by (rule hx3)
    qed
  qed (simp_all add: oth3)
  have um: "unobserved s3 < m" using u u3 by simp
  have keep: "ob (heap s' ! r) = Some (dep_uid s)" if e: "ext Y s3 s'" for s' Y
  proof -
    have "same_shape (heap s3 ! r) (heap s' ! r)"
      using extD(6)[OF e] r oth3 by simp
    then show ?thesis by (simp add: same_shape_def hr3)
  qed
  show ?thesis
  proof (cases "cls (heap s ! r) = ArrayObject")
    case True
    define s4 where "s4 = augment r s3"
    have hr4: "heap s4 ! r = (heap s3 ! r)\<lparr>augmented := True\<rparr>"
      using r oth3 by (simp add: s4_def augment_def)
    have hx4: "x \<noteq> r \<Longrightarrow> heap s4 ! x = heap s3 ! x" for x by (simp add: s4_def augment_def)
    have oth4: "rest s4 = rest s3" "dep_uid s4 = dep_uid s3" "subs s4 = subs s3"
      "closures s4 = closures s3" "length (heap s4) = length (heap s3)"
      by (simp_all add: s4_def augment_def)
    have t4: "tidy s4"
      unfolding tidy_def
    proof (intro allI impI)
      fix x assume x: "x < length (heap s4)"
      show "distinct (map fst (props (heap s4 ! x))) \<and>
        (ob (heap s4 ! x) = None \<longrightarrow> (\<forall>kp\<in>set (props (heap s4 ! x)). \<not> is_reactive (Some (snd kp))))"
      proof (cases "x = r")
        case True
        have "distinct (map fst (props (heap s3 ! r)))" using t3 r oth3 unfolding tidy_def by simp
        then show ?thesis unfolding True by (simp add: hr4 hr3)
      next
        case False
        have "x < length (heap s3)" using x oth4 by simp
        then show ?thesis using t3 hx4[OF False] unfolding tidy_def by simp
      qed
    qed
    have u4: "unobserved s4 = unobserved s3"
      unfolding unobserved_def s4_def augment_def by (simp add: length_filter_update_same)
    have e34: "ext {r} s3 s4"
    proof (rule extI)
      show "same_shape (heap s3 ! x) (heap s4 ! x)" if "x < length (heap s3)" for x
      proof (cases "x = r")
        case True
        show ?thesis unfolding True by (simp add: hr4 same_shape_def)
      next
        case False
        then show ?thesis using hx4 by simp
      qed
      show "heap s4 ! x = heap s3 ! x"
        if "x < length (heap s3)" "ob (heap s3 ! x) \<noteq> None" "x \<notin> {r}" for x
        using that(3) hx4 by simp
    qed (auto simp: oth4)
    from observeArray_sufficient[OF suf t4, of "elems (heap s4 ! r)"] um u4
    obtain s5 where a: "observeArray obs (elems (heap s4 ! r)) s4 = Some (Inr (), s5)"
      and t5: "tidy s5" and u5: "unobserved s5 \<le> unobserved s4" and e5: "ext {} s4 s5"
      by auto
    have c3: "cls (heap s3 ! r) = ArrayObject" using True by (simp add: hr3)
    have n: "new_Observer obs r s = Some (Inr (dep_uid s), s5)"
      using c3 a unfolding new_Observer_def Let_def s3_def s4_def
      by simp
    have "ext {r} s s5"
      by (rule ext_trans[OF e3 ext_trans[OF e34 ext_mono[OF e5]]]) simp
    then have e: "ext {} s s5" by (rule ext_drop) (simp add: o)
    have k: "ob (heap s5 ! r) = Some (dep_uid s)"
      by (rule keep[OF ext_trans[OF e34 ext_mono[OF e5]]]) simp
    show ?thesis using n t5 u5 u4 u3 e k by auto
  next
    case False
    have c3: "cls (heap s3 ! r) \<noteq> ArrayObject" using False by (simp add: hr3)
    have r3: "r < length (heap s3)" using r oth3 by simp
    have o3: "ob (heap s3 ! r) \<noteq> None" by (simp add: hr3)
    have dk: "distinct (Object_keys (heap s3 ! r))"
    proof (rule distinct_Object_keys)
      show "distinct (map fst (props (heap s3 ! r)))" using t3 r3 unfolding tidy_def by blast
    qed
    have pk: "\<forall>k \<in> set (Object_keys (heap s3 ! r)).
        \<exists>pr. map_of (props (heap s3 ! r)) k = Some pr \<and> \<not> is_reactive (Some pr)"
    proof
      fix k assume "k \<in> set (Object_keys (heap s3 ! r))"
      then have "k \<in> fst ` set (props (heap s ! r))"
        using set_Object_keys[of "heap s3 ! r"] by (auto simp: hr3)
      then obtain pr where m: "map_of (props (heap s ! r)) k = Some pr"
        by (metis map_of_eq_None_iff not_Some_eq)
      then have "(k, pr) \<in> set (props (heap s ! r))" by (rule map_of_SomeD)
      then have "\<not> is_reactive (Some pr)" using t r o unfolding tidy_def by fastforce
      with m show "\<exists>pr. map_of (props (heap s3 ! r)) k = Some pr \<and> \<not> is_reactive (Some pr)"
        by (simp add: hr3)
    qed
    from walk_keys_sufficient[OF suf t3 um r3 o3 c3 dk pk]
    obtain s5 where a: "walk_keys obs r (Object_keys (heap s3 ! r)) s3 = Some (Inr (), s5)"
      and t5: "tidy s5" and u5: "unobserved s5 \<le> unobserved s3" and e5: "ext {r} s3 s5"
      by blast
    have n: "new_Observer obs r s = Some (Inr (dep_uid s), s5)"
      using c3 a unfolding new_Observer_def Let_def walk_def s3_def
      by simp
    have "ext {r} s s5" by (rule ext_trans[OF e3 e5])
    then have e: "ext {} s s5" by (rule ext_drop) (simp add: o)
    have k: "ob (heap s5 ! r) = Some (dep_uid s)" by (rule keep[OF e5])
    show ?thesis using n t5 u5 u3 e k by auto
  qed
qed


lemma ext_observers: "ext X s (s\<lparr>observers := os\<rparr>)"
  by (rule extI) auto

lemma observe_body_sufficient:
  assumes suf: "sufficient m obs"
  shows "sufficient (Suc m) (observe_body obs)"
  unfolding sufficient_def
proof (intro allI impI)
  fix v a s
  assume "tidy s \<and> unobserved s < Suc m"
  then have t: "tidy s" and u: "unobserved s < Suc m" by simp_all
  let ?goal = "\<exists>res s'. observe_body obs v a s = Some (Inr res, s') \<and> tidy s' \<and>
      unobserved s' \<le> unobserved s \<and> ext {} s s' \<and> res = observer_of s' v \<and>
      (observable s v \<longleftrightarrow> res \<noteq> None)"
  have trivial: ?goal
    if "observe_body obs v a s = Some (Inr None, s)" "\<not> observable s v" "observer_of s v = None"
    using that t by auto
  show ?goal
  proof (cases v)
    case (Object r)
    show ?thesis
    proof (cases "r < length (heap s)")
      case False
      show ?thesis
        by (rule trivial) (use False Object in \<open>simp_all add: observe_body_def lookup_def observable_def observer_of_def\<close>)
    next
      case True
      note r = True
      show ?thesis
      proof (cases "cls (heap s ! r) = VNodeObject")
        case True
        show ?thesis
          by (rule trivial) (use True r Object in \<open>simp_all add: observe_body_def lookup_def observable_def observer_of_def\<close>)
      next
        case False
        note nv = False
        show ?thesis
        proof (cases "ob (heap s ! r)")
          case (Some b)
          let ?s' = "if a then s\<lparr>observers := (observers s)
              (b := (observers s b)\<lparr>vmCount := vmCount (observers s b) + 1\<rparr>)\<rparr> else s"
          have 1: "observe_body obs v a s = Some (Inr (Some b), ?s')"
            using Some r nv Object by (simp add: observe_body_def lookup_def)
          have 2: "tidy ?s'" using t tidy_heap[of ?s' s] by simp
          have 3: "unobserved ?s' = unobserved s" by (rule unobserved_heap) simp
          have 4: "ext {} s ?s'" by (simp add: ext_observers)
          have 5: "observer_of ?s' v = Some b"
            using Some r nv Object by (simp add: observer_of_def lookup_def)
          have 6: "observable s v"
            using Some r nv Object by (simp add: observable_def lookup_def)
          show ?thesis using 1 2 3 4 5 6 by auto
        next
          case None
          show ?thesis
          proof (cases "shouldObserve s \<and> \<not> serverRendering s \<and>
                 (cls (heap s ! r) = ArrayObject \<or> cls (heap s ! r) = PlainObject) \<and>
                 extensible (heap s ! r) \<and> \<not> isVue (heap s ! r)")
            case False
            show ?thesis
              by (rule trivial) (use False None r nv Object in \<open>auto simp: observe_body_def lookup_def observable_def observer_of_def\<close>)
          next
            case True
            from new_Observer_sufficient[OF suf t u r None]
            obtain s1 where n: "new_Observer obs r s = Some (Inr (dep_uid s), s1)" and t1: "tidy s1"
              and u1: "unobserved s1 \<le> unobserved s" and e1: "ext {} s s1"
              and o1: "ob (heap s1 ! r) = Some (dep_uid s)"
              by blast
            let ?b = "dep_uid s"
            let ?s' = "if a then s1\<lparr>observers := (observers s1)
                (?b := (observers s1 ?b)\<lparr>vmCount := vmCount (observers s1 ?b) + 1\<rparr>)\<rparr> else s1"
            have 1: "observe_body obs v a s = Some (Inr (Some ?b), ?s')"
              using True None r nv Object n by (simp add: observe_body_def lookup_def)
            have 2: "tidy ?s'" using t1 tidy_heap[of ?s' s1] by simp
            have 3: "unobserved ?s' = unobserved s1" by (rule unobserved_heap) simp
            have "ext {} s1 ?s'" by (simp add: ext_observers)
            then have 4: "ext {} s ?s'" by (rule ext_trans[OF e1])
            have sh: "same_shape (heap s ! r) (heap s1 ! r)" by (rule extD(6)[OF e1 r])
            have 5: "observer_of ?s' v = Some ?b"
              using o1 r nv Object sh extD(5)[OF e1]
              by (simp add: observer_of_def lookup_def same_shape_def)
            have 6: "observable s v"
              using True r nv Object by (simp add: observable_def lookup_def)
            show ?thesis using 1 2 3 4 5 6 u1 by auto
          qed
        qed
      qed
    qed
  qed (rule trivial; simp add: observe_body_def observable_def observer_of_def)+
qed

lemma observe_sufficient: "sufficient (Suc n) (observe n)"
proof (induction n)
  case 0
  have "sufficient 0 (\<lambda>_ _ _. None)" by (simp add: sufficient_def)
  then show ?case using observe_body_sufficient by simp
next
  case (Suc n)
  then show ?case using observe_body_sufficient by simp
qed

lemma observe_total:
  assumes "tidy s" "unobserved s \<le> n"
  shows "\<exists>res s'. observe n v a s = Some (Inr res, s') \<and> tidy s' \<and> unobserved s' \<le> unobserved s \<and>
           ext {} s s' \<and> res = observer_of s' v \<and> (observable s v \<longleftrightarrow> res \<noteq> None)"
proof -
  have "unobserved s < Suc n" using assms(2) by simp
  then show ?thesis by (rule sufficientD[OF observe_sufficient assms(1)])
qed


section \<open>The setter of a reactive property\<close>

lemma hp_addDep [simp]: "hp (addDep u d s) = hp s"
  by (simp add: hp_def addDep_def addSub_def Let_def)

lemma hp_depend [simp]: "hp (depend d s) = hp s"
  by (simp add: depend_def split: option.splits)

lemma hp_fold_depend [simp]: "hp (fold depend ds s) = hp s"
  by (induction ds arbitrary: s) simp_all

lemma hp_cleanupDeps [simp]: "hp (cleanupDeps u s) = hp s"
  by (simp add: hp_def cleanupDeps_eq)

lemma hp_get [simp]: "hp (snd (get u s)) = hp s"
proof -
  have a: "hp (snd (snd (get_try u s'))) = hp s'" for s'
  proof -
    have "hp (handleError e u s2) = hp s2" for e s2 by (simp add: hp_def handleError_def)
    then show ?thesis by (simp add: get_try_def Let_def split: sum.splits)
  qed
  have b: "hp (popTarget s') = hp s'" for s' by (simp add: hp_def popTarget_def Let_def)
  have c: "hp (get_finally u v s') = hp s'" for v s'
    by (simp add: get_finally_def Let_def b)
  have d: "hp (pushTarget t s) = hp s" for t by (simp add: hp_def pushTarget_def)
  show ?thesis by (simp add: get_state a c d)
qed

lemma hp_run [simp]: "hp (snd (run u s)) = hp s"
proof -
  obtain r s1 where g: "get u s = (r, s1)" by fastforce
  have "hp s1 = hp s" using hp_get[of u s] g by simp
  then show ?thesis
    using g by (auto simp: run_def Let_def invokeWithErrorHandling_def handleError_def hp_def
        split: sum.splits option.splits)
qed

lemma hp_update [simp]: "hp (snd (update u s)) = hp s"
proof -
  have "hp (queueWatcher u s) = hp s"
    by (simp add: hp_def queueWatcher_def Let_def del: insert_sorted_from.simps)
  then show ?thesis
    using hp_run[of u s] by (simp add: update_def Let_def) (simp add: hp_def)
qed

lemma hp_notify_loop [simp]: "hp (snd (notify_loop us s)) = hp s"
proof (induction us arbitrary: s)
  case Nil
  show ?case by simp
next
  case (Cons u us)
  obtain r s1 where p: "update u s = (r, s1)" by fastforce
  have "hp s1 = hp s" using hp_update[of u s] p by simp
  then show ?case using p Cons.IH[of s1] by (simp split: option.splits)
qed












section \<open>The wrappers of the array methods\<close>



lemma ob_update_elems:
  "x < length (heap s) \<Longrightarrow>
   ob (heap (update_obj r (\<lambda>obj. obj\<lparr>elems := ys\<rparr>) s) ! x) = ob (heap s ! x)"
  by (cases "x = r") simp_all










section \<open>observe on a value it has seen\<close>

lemma observe_settled:
  assumes "observer_of s v \<noteq> None \<or> \<not> observable s v"
  shows "observe n v False s = Some (Inr (observer_of s v), s)"
proof (cases v)
  case (Object r)
  show ?thesis
  proof (cases "lookup s r")
    case None
    then show ?thesis
      using Object by (simp add: observe_unfold[of n] observe_body_def observer_of_def)
  next
    case (Some obj)
    then show ?thesis
      using Object assms
      by (auto simp: observe_unfold[of n] observe_body_def observer_of_def observable_def
          split: option.splits)
  qed
qed (simp_all add: observe_unfold[of n] observe_body_def observer_of_def)

lemma observable_back:
  assumes "ext X s s'" "observable s' v" "observer_of s' v = None"
  shows "observable s v"
proof -
  from assms(2) obtain r where v: "v = Object r" and l': "r < length (heap s')"
    by (auto simp: observable_def lookup_def split: jsval.splits if_splits)
  have l: "r < length (heap s)" using l' extD(5)[OF assms(1)] by simp
  have sh: "same_shape (heap s ! r) (heap s' ! r)" by (rule extD(6)[OF assms(1) l])
  have f: "shouldObserve s' = shouldObserve s" "serverRendering s' = serverRendering s"
    using rest_fields[OF extD(1)[OF assms(1)]] by simp_all
  show ?thesis
    using assms(2,3) v l l' sh f
    by (auto simp: observable_def observer_of_def lookup_def same_shape_def split: if_splits)
qed

lemma observe_twice:
  assumes "tidy s" "unobserved s \<le> n"
  shows "\<exists>res s'. observe n v False s = Some (Inr res, s') \<and>
           observe n v False s' = Some (Inr res, s')"
proof -
  from observe_total[OF assms, of v False]
  obtain res s' where o: "observe n v False s = Some (Inr res, s')"
    and x: "ext {} s s'" and r: "res = observer_of s' v"
    and ob: "observable s v \<longleftrightarrow> res \<noteq> None"
    by blast
  have "observer_of s' v \<noteq> None \<or> \<not> observable s' v"
  proof (cases res)
    case None
    then have n1: "\<not> observable s v" using ob by simp
    have "\<not> observable s' v"
      using observable_back[OF x, of v] r None n1 by auto
    then show ?thesis by simp
  next
    case (Some b)
    then show ?thesis using r by simp
  qed
  then have "observe n v False s' = Some (Inr res, s')"
    using observe_settled[of s' v n] r by simp
  then show ?thesis using o by blast
qed

text \<open>
  Claim C7, amended. In a tidy heap, with a depth that is at least the number of
  objects without observer, \<open>observe\<close> finishes, and a second call on the same value
  returns the same result and changes nothing. On a container that is not a VNode and
  carries an observer, \<open>observe\<close> returns that observer and changes nothing (with
  \<open>asRootData\<close> it increments \<open>vmCount\<close> and changes nothing else), also when the
  container is not extensible. A primitive, a VNode instance, and a container that is not
  extensible and carries no observer are not observed: \<open>observe\<close> returns \<open>undefined\<close>
  and leaves the state as it is.
\<close>

theorem C7_observe_idempotent:
  "(tidy s \<and> unobserved s \<le> n \<longrightarrow>
      (\<exists>res s'. observe n v False s = Some (Inr res, s') \<and>
         observe n v False s' = Some (Inr res, s'))) \<and>
   (lookup s r = Some obj \<and> cls obj \<noteq> VNodeObject \<and> ob obj = Some b \<longrightarrow>
      observe n (Object r) False s = Some (Inr (Some b), s) \<and>
      observe n (Object r) True s =
        Some (Inr (Some b),
          s\<lparr>observers := (observers s)(b := (observers s b)\<lparr>vmCount := vmCount (observers s b) + 1\<rparr>)\<rparr>)) \<and>
   (\<not> isObject v \<longrightarrow> observe n v a s = Some (Inr None, s)) \<and>
   (lookup s r = Some obj \<and> cls obj = VNodeObject \<longrightarrow> observe n (Object r) a s = Some (Inr None, s)) \<and>
   (lookup s r = Some obj \<and> \<not> extensible obj \<and> ob obj = None \<longrightarrow>
      observe n (Object r) a s = Some (Inr None, s))"
proof -
  have q: "tidy s \<and> unobserved s \<le> n \<longrightarrow>
      (\<exists>res s'. observe n v False s = Some (Inr res, s') \<and>
         observe n v False s' = Some (Inr res, s'))"
    using observe_twice[of s n v] by blast
  have p: "\<not> isObject v \<Longrightarrow> observe n v a s = Some (Inr None, s)"
    by (cases v) (simp_all add: observe_unfold[of n] observe_body_def)
  have m: "(lookup s r = Some obj \<and> cls obj \<noteq> VNodeObject \<and> ob obj = Some b \<longrightarrow>
      observe n (Object r) False s = Some (Inr (Some b), s) \<and>
      observe n (Object r) True s =
        Some (Inr (Some b),
          s\<lparr>observers := (observers s)(b := (observers s b)\<lparr>vmCount := vmCount (observers s b) + 1\<rparr>)\<rparr>)) \<and>
   (\<not> isObject v \<longrightarrow> observe n v a s = Some (Inr None, s)) \<and>
   (lookup s r = Some obj \<and> cls obj = VNodeObject \<longrightarrow> observe n (Object r) a s = Some (Inr None, s)) \<and>
   (lookup s r = Some obj \<and> \<not> extensible obj \<and> ob obj = None \<longrightarrow>
      observe n (Object r) a s = Some (Inr None, s))"
    using p by (simp add: observe_unfold[of n] observe_body_def)
  show ?thesis by (rule conjI[OF q m])
qed

theorem C7_witness:
  "lookup (heap_state [observed_frozen_object, vnode_object, frozen_object]) 0 = Some observed_frozen_object \<and>
   cls observed_frozen_object \<noteq> VNodeObject \<and> ob observed_frozen_object = Some 0 \<and>
   observe 2 (Object 0) False (heap_state [observed_frozen_object, vnode_object, frozen_object]) =
     Some (Inr (Some 0), heap_state [observed_frozen_object, vnode_object, frozen_object]) \<and>
   \<not> isObject (Number 7) \<and>
   observe 2 (Number 7) False (heap_state [observed_frozen_object, vnode_object, frozen_object]) =
     Some (Inr None, heap_state [observed_frozen_object, vnode_object, frozen_object]) \<and>
   lookup (heap_state [observed_frozen_object, vnode_object, frozen_object]) 1 = Some vnode_object \<and>
   cls vnode_object = VNodeObject \<and>
   observe 2 (Object 1) False (heap_state [observed_frozen_object, vnode_object, frozen_object]) =
     Some (Inr None, heap_state [observed_frozen_object, vnode_object, frozen_object]) \<and>
   lookup (heap_state [observed_frozen_object, vnode_object, frozen_object]) 2 = Some frozen_object \<and>
   \<not> extensible frozen_object \<and> ob frozen_object = None \<and>
   observe 2 (Object 2) False (heap_state [observed_frozen_object, vnode_object, frozen_object]) =
     Some (Inr None, heap_state [observed_frozen_object, vnode_object, frozen_object]) \<and>
   tidy (heap_state [plain_object [(Name ''a'', DataProperty (Number 1) True True True)]]) \<and>
   unobserved (heap_state [plain_object [(Name ''a'', DataProperty (Number 1) True True True)]]) \<le> 2 \<and>
   (case observe 2 (Object 0) False
           (heap_state [plain_object [(Name ''a'', DataProperty (Number 1) True True True)]]) of
      Some (Inr res, s') \<Rightarrow>
        res = Some 2 \<and> ob (heap s' ! 0) = Some 2 \<and>
        props (heap s' ! 0) = [(Name ''a'', ReactiveProperty 3)] \<and>
        observe 2 (Object 0) False s' = Some (Inr (Some 2), s')
    | _ \<Rightarrow> False)"
proof -
  let ?s = "heap_state [observed_frozen_object, vnode_object, frozen_object]"
  let ?p = "heap_state [plain_object [(Name ''a'', DataProperty (Number 1) True True True)]]"
  have l: "lookup ?s 0 = Some observed_frozen_object" "lookup ?s 1 = Some vnode_object"
    "lookup ?s 2 = Some frozen_object"
    by (simp_all add: lookup_def heap_state_def init_state_def)
  have f: "cls observed_frozen_object \<noteq> VNodeObject" "ob observed_frozen_object = Some 0"
    "cls vnode_object = VNodeObject" "\<not> extensible frozen_object" "ob frozen_object = None"
    by (simp_all add: observed_frozen_object_def vnode_object_def frozen_object_def)
  note t0 = C7_observe_idempotent[where s = ?s and r = 0 and obj = observed_frozen_object
      and b = 0 and n = 2 and v = "Number 7" and a = False]
  note t1 = C7_observe_idempotent[where s = ?s and r = 1 and obj = vnode_object
      and b = 0 and n = 2 and v = "Number 7" and a = False]
  note t2 = C7_observe_idempotent[where s = ?s and r = 2 and obj = frozen_object
      and b = 0 and n = 2 and v = "Number 7" and a = False]
  note t3 = C7_observe_idempotent[where s = ?p and r = 0 and obj = frozen_object
      and b = 0 and n = 2 and v = "Object 0" and a = False]
  have a: "observe 2 (Object 0) False ?s = Some (Inr (Some 0), ?s)"
    using t0 l f by blast
  have b: "observe 2 (Number 7) False ?s = Some (Inr None, ?s)"
    using t0 by simp
  have c: "observe 2 (Object 1) False ?s = Some (Inr None, ?s)"
    using t1 l f by blast
  have d: "observe 2 (Object 2) False ?s = Some (Inr None, ?s)"
    using t2 l f by blast
  have t: "tidy ?p" "unobserved ?p \<le> 2"
    by (simp_all add: tidy_def unobserved_def heap_state_def init_state_def plain_object_def)
  have e: "case observe 2 (Object 0) False ?p of
      Some (Inr res, s') \<Rightarrow>
        res = Some 2 \<and> ob (heap s' ! 0) = Some 2 \<and>
        props (heap s' ! 0) = [(Name ''a'', ReactiveProperty 3)] \<and>
        observe 2 (Object 0) False s' = Some (Inr (Some 2), s')
    | _ \<Rightarrow> False"
    by (simp add: numeral_2_eq_2 observe_body_def new_Observer_def mark_observed_def walk_def
        Object_keys_def defineReactive_def initial_value_def own_property_def new_Dep_def
        lookup_def update_obj_def heap_state_def init_state_def plain_object_def Let_def)
  show ?thesis
    using t3 l f a b c d t e by simp
qed

text \<open>
  Claim C7 as stated fails: for a container that is not extensible (it was observed, then
  frozen) \<open>observe\<close> returns its observer, not \<open>undefined\<close>.
\<close>

theorem C7_counterexample:
  "lookup (heap_state [observed_frozen_object]) 0 = Some observed_frozen_object \<and>
   cls observed_frozen_object = PlainObject \<and> \<not> extensible observed_frozen_object \<and>
   observe 2 (Object 0) False (heap_state [observed_frozen_object]) =
     Some (Inr (Some 0), heap_state [observed_frozen_object]) \<and>
   observe 2 (Object 0) False (heap_state [observed_frozen_object]) \<noteq>
     Some (Inr None, heap_state [observed_frozen_object])"
  by (simp add: numeral_2_eq_2 observe_body_def lookup_def heap_state_def init_state_def
      observed_frozen_object_def)


end
